theory Spec2Isabelle
  imports Main
begin

section \<open>JavaScript values as the relay sees them\<close>

text \<open>
  The relay of \<^verbatim>\<open>src/relay/server.js\<close> inspects an inbound payload with three
  JavaScript primitives only: truthiness (\<^verbatim>\<open>!payload\<close>, \<^verbatim>\<open>payload.data || null\<close>,
  \<^verbatim>\<open>if (s.lastState)\<close>), \<^verbatim>\<open>typeof\<close>, and the property reads \<^verbatim>\<open>payload.type\<close> and
  \<^verbatim>\<open>payload.data\<close>.  A payload is a value that the transport has decoded: undefined
  (no argument), null, a boolean, a number, a string, an array or a plain object.
  Numbers are integers or NaN here; the relay only ever tests a number for truthiness.
  An object is the list of its own properties, read by the first entry of a key.
\<close>

datatype jsval =
    JUndefined
  | JNull
  | JBool bool
  | JNum int
  | JNaN
  | JStr string
  | JArr "jsval list"
  | JObj "(string \<times> jsval) list"

text \<open>ToBoolean: undefined, null, false, 0, NaN and the empty string are falsy.\<close>

fun truthy :: "jsval \<Rightarrow> bool" where
  "truthy JUndefined = False"
| "truthy JNull = False"
| "truthy (JBool b) = b"
| "truthy (JNum n) = (n \<noteq> 0)"
| "truthy JNaN = False"
| "truthy (JStr s) = (s \<noteq> [])"
| "truthy (JArr xs) = True"
| "truthy (JObj kvs) = True"

fun typeof :: "jsval \<Rightarrow> string" where
  "typeof JUndefined = ''undefined''"
| "typeof JNull = ''object''"
| "typeof (JBool b) = ''boolean''"
| "typeof (JNum n) = ''number''"
| "typeof JNaN = ''number''"
| "typeof (JStr s) = ''string''"
| "typeof (JArr xs) = ''object''"
| "typeof (JObj kvs) = ''object''"

text \<open>
  The property read \<^verbatim>\<open>payload.k\<close> for the two names the relay reads, \<^verbatim>\<open>type\<close> and
  \<^verbatim>\<open>data\<close>, on a value that has passed the guard of line 149: an object yields its own
  property or undefined, an array has neither name and yields undefined.
\<close>

fun get_prop :: "jsval \<Rightarrow> string \<Rightarrow> jsval" where
  "get_prop (JObj kvs) k = (case map_of kvs k of Some v \<Rightarrow> v | None \<Rightarrow> JUndefined)"
| "get_prop v k = JUndefined"

text \<open>
  A structured object in the words of the specification: neither a primitive nor null
  nor absent.
\<close>

fun structured :: "jsval \<Rightarrow> bool" where
  "structured (JArr xs) = True"
| "structured (JObj kvs) = True"
| "structured v = False"

subsection \<open>Handshake strings\<close>

text \<open>
  \<^verbatim>\<open>String(x || "")\<close> on a query parameter that is absent or a string, and
  \<^verbatim>\<open>String.prototype.trim\<close> on strings of 8-bit code units: the white space among them
  is tab, line feed, vertical tab, form feed, carriage return, space and no-break space.
\<close>

definition String_or_empty :: "string option \<Rightarrow> string" where
  "String_or_empty x = (case x of None \<Rightarrow> [] | Some v \<Rightarrow> v)"

definition is_ws :: "char \<Rightarrow> bool" where
  "is_ws ch = (ch \<in> set [CHR 0x09, CHR 0x0A, CHR 0x0B, CHR 0x0C, CHR 0x0D, CHR 0x20, CHR 0xA0])"

definition trim :: "string \<Rightarrow> string" where
  "trim str = rev (dropWhile is_ws (rev (dropWhile is_ws str)))"

section \<open>The relay state\<close>

text \<open>
  A session object \<^verbatim>\<open>{ lastState, publishers, viewers }\<close> lives in a store and is
  reached through references: the registry \<^verbatim>\<open>sessions\<close> maps an identifier to a
  reference, and each connection's handlers close over \<^verbatim>\<open>socket\<close> (of which the model
  keeps \<^verbatim>\<open>socket.id\<close>), \<^verbatim>\<open>sid\<close>, \<^verbatim>\<open>r\<close> and the reference \<^verbatim>\<open>s\<close> obtained at connect
  time.  The event handler writes through the captured \<^verbatim>\<open>s\<close>, the disconnect handler
  looks the registry up again.
\<close>

record session =
  lastState :: jsval
  publishers :: int
  viewers :: int

record closure =
  c_id :: string
  c_sid :: string
  c_r :: string
  c_s :: nat

record query =
  sessionId :: "string option"
  role :: "string option"

text \<open>
  The transport, socket.io, gives every socket an id, a string, and keeps for every
  room name the connected sockets in that room.  A socket is in the room named by its
  own id from before the connection handler runs, and in every room it has called
  \<^verbatim>\<open>socket.join\<close> with; it leaves all its rooms when it disconnects.  The transport
  calls a connection's handlers only while it is connected and only if the connection
  handler registered them: \<open>conns\<close> holds exactly these connections with what their
  handlers closed over.  Connections and session objects are numbered in the order of
  their creation.  The counters are integers: the relay adds and subtracts one, far
  below the range where a JavaScript number stops being exact.
\<close>

record state =
  sessions :: "string \<rightharpoonup> nat"
  heap :: "nat \<Rightarrow> session"
  nextRef :: nat
  conns :: "nat \<rightharpoonup> closure"
  rooms :: "string \<Rightarrow> nat set"
  nextConn :: nat

text \<open>
  What the relay asks of the transport: \<^verbatim>\<open>socket.emit("hb:event", v)\<close> to one
  connection, \<^verbatim>\<open>io.to(room).emit("hb:event", v)\<close> to a room, and
  \<^verbatim>\<open>socket.disconnect(true)\<close>.  The channel label is \<^verbatim>\<open>"hb:event"\<close> throughout.
\<close>

datatype action =
    SendTo nat jsval
  | BroadcastToGroup string jsval
  | ForceDisconnect nat

text \<open>
  What the transport brings: a new connection with the id it gave the socket and the
  query of the handshake, a message of a connection, and the end of a connection.
  Nothing is assumed of the ids, not even that they differ.
\<close>

datatype input =
    Connect string "query option"
  | Event nat jsval
  | Disconnect nat

definition init :: state where
  "init = \<lparr> sessions = Map.empty,
            heap = (\<lambda>_. \<lparr> lastState = JNull, publishers = 0, viewers = 0 \<rparr>),
            nextRef = 0,
            conns = Map.empty,
            rooms = (\<lambda>_. {}),
            nextConn = 0 \<rparr>"

section \<open>The handlers\<close>

text \<open>\<^verbatim>\<open>getSession\<close>, lines 116 to 121: the registered object, or a new one.\<close>

definition getSession :: "state \<Rightarrow> string \<Rightarrow> state \<times> nat" where
  "getSession st g =
     (case sessions st g of
        Some p \<Rightarrow> (st, p)
      | None \<Rightarrow>
          (st\<lparr> sessions := (sessions st)(g \<mapsto> nextRef st),
               heap := (heap st)(nextRef st := \<lparr> lastState = JNull, publishers = 0, viewers = 0 \<rparr>),
               nextRef := Suc (nextRef st) \<rparr>,
           nextRef st))"

text \<open>
  Lines 124 to 126: the query of the handshake (\<open>None\<close> is a handshake without one,
  \<^verbatim>\<open>socket.handshake.query || {}\<close>), and the two strings \<^verbatim>\<open>sid\<close> and \<^verbatim>\<open>r\<close>.
\<close>

definition handshake_query :: "query option \<Rightarrow> query" where
  "handshake_query hq = (case hq of None \<Rightarrow> \<lparr> sessionId = None, role = None \<rparr> | Some q \<Rightarrow> q)"

definition sid_of :: "query option \<Rightarrow> string" where
  "sid_of hq = trim (String_or_empty (sessionId (handshake_query hq)))"

definition r_of :: "query option \<Rightarrow> string" where
  "r_of hq = trim (String_or_empty (role (handshake_query hq)))"

text \<open>
  The connection handler, lines 123 to 142, for the connection numbered \<open>nextConn\<close>
  whose socket has the id \<open>sk\<close>.  The transport has put the socket in the room named
  \<open>sk\<close> before the handler runs, and \<^verbatim>\<open>socket.disconnect(true)\<close> takes it out of all
  its rooms.
\<close>

definition onConnect :: "state \<Rightarrow> string \<Rightarrow> query option \<Rightarrow> state \<times> action list" where
  "onConnect st sk hq =
     (let c = nextConn st;
          st0 = st\<lparr> nextConn := Suc c, rooms := (rooms st)(sk := insert c (rooms st sk)) \<rparr>;
          sid = sid_of hq;
          r = r_of hq
      in if sid = [] then (st0\<lparr> rooms := (\<lambda>g. rooms st0 g - {c}) \<rparr>, [ForceDisconnect c])
         else
           (let st1 = st0\<lparr> rooms := (rooms st0)(sid := insert c (rooms st0 sid)) \<rparr>;
                (st2, p) = getSession st1 sid;
                s = heap st2 p;
                s' = (if r = ''publisher'' then s\<lparr> publishers := publishers s + 1 \<rparr>
                      else s\<lparr> viewers := viewers s + 1 \<rparr>);
                st3 = st2\<lparr> heap := (heap st2)(p := s') \<rparr>;
                acts = (if truthy (lastState s')
                        then [SendTo c (JObj [(''type'', JStr ''state''), (''data'', lastState s')])]
                        else []);
                st4 = st3\<lparr> conns := (conns st3)(c \<mapsto> \<lparr> c_id = sk, c_sid = sid, c_r = r, c_s = p \<rparr>) \<rparr>
            in (st4, acts)))"

text \<open>
  The \<^verbatim>\<open>hb:event\<close> handler of a connection, lines 145 to 159.  On a decoded payload
  no statement of the \<^verbatim>\<open>try\<close> block raises, so the empty \<^verbatim>\<open>catch\<close> has no branch
  here.
\<close>

definition onEvent :: "state \<Rightarrow> nat \<Rightarrow> jsval \<Rightarrow> state \<times> action list" where
  "onEvent st c payload =
     (case conns st c of
        None \<Rightarrow> (st, [])
      | Some cl \<Rightarrow>
          if \<not> truthy payload \<or> typeof payload \<noteq> ''object'' then (st, [])
          else
            (let st1 = (if get_prop payload ''type'' = JStr ''state''
                        then st\<lparr> heap := (heap st)(c_s cl := (heap st (c_s cl))
                               \<lparr> lastState := (if truthy (get_prop payload ''data'')
                                                then get_prop payload ''data'' else JNull) \<rparr>) \<rparr>
                        else st)
             in (st1, [BroadcastToGroup (c_sid cl) payload])))"

text \<open>
  The \<^verbatim>\<open>disconnect\<close> handler of a connection, lines 161 to 170.  The transport has
  taken the connection out of all its rooms before it calls the handler, and calls no
  handler of that connection afterwards.
\<close>

definition onDisconnect :: "state \<Rightarrow> nat \<Rightarrow> state \<times> action list" where
  "onDisconnect st c =
     (case conns st c of
        None \<Rightarrow> (st, [])
      | Some cl \<Rightarrow>
          (let st0 = st\<lparr> conns := (conns st)(c := None),
                         rooms := (\<lambda>g. rooms st g - {c}) \<rparr>;
               (st1, p) = getSession st0 (c_sid cl);
               ss = heap st1 p;
               ss' = (if c_r cl = ''publisher'' then ss\<lparr> publishers := max 0 (publishers ss - 1) \<rparr>
                      else ss\<lparr> viewers := max 0 (viewers ss - 1) \<rparr>);
               st2 = st1\<lparr> heap := (heap st1)(p := ss') \<rparr>;
               st3 = (if publishers ss' = 0 \<and> viewers ss' = 0
                      then st2\<lparr> sessions := (sessions st2)(c_sid cl := None) \<rparr>
                      else st2)
           in (st3, [])))"

section \<open>Runs of the relay\<close>

text \<open>
  All handlers run one after the other on the single event loop, so a run is a list of
  inputs, each handled to its end.
\<close>

fun step :: "state \<Rightarrow> input \<Rightarrow> state \<times> action list" where
  "step st (Connect sk hq) = onConnect st sk hq"
| "step st (Event c payload) = onEvent st c payload"
| "step st (Disconnect c) = onDisconnect st c"

fun exec :: "state \<Rightarrow> input list \<Rightarrow> state" where
  "exec st [] = st"
| "exec st (i # is) = exec (fst (step st i)) is"

text \<open>
  The payloads that the actions of one step deliver to connection \<open>c\<close>, in order; a
  broadcast reaches the sockets that the room has when the handler emits it, the
  socket whose own id is the room's name among them.
\<close>

fun received :: "state \<Rightarrow> action list \<Rightarrow> nat \<Rightarrow> jsval list" where
  "received st [] c = []"
| "received st (SendTo d v # as) c = (if d = c then [v] else []) @ received st as c"
| "received st (BroadcastToGroup g v # as) c = (if c \<in> rooms st g then [v] else []) @ received st as c"
| "received st (ForceDisconnect d # as) c = received st as c"

text \<open>Everything connection \<open>c\<close> receives during a run, in order.\<close>

fun inbox :: "state \<Rightarrow> input list \<Rightarrow> nat \<Rightarrow> jsval list" where
  "inbox st [] c = []"
| "inbox st (i # is) c =
     received (fst (step st i)) (snd (step st i)) c @ inbox (fst (step st i)) is c"

text \<open>What the registry holds for an identifier: the session object, if any.\<close>

definition lookup :: "state \<Rightarrow> string \<Rightarrow> session option" where
  "lookup st g = map_option (heap st) (sessions st g)"

text \<open>The cached state a joiner of \<open>g\<close> would find: null when there is no session.\<close>

definition cached :: "state \<Rightarrow> string \<Rightarrow> jsval" where
  "cached st g = (case lookup st g of None \<Rightarrow> JNull | Some s \<Rightarrow> lastState s)"

section \<open>Notions for stating and proving the properties\<close>

text \<open>
  The test \<^verbatim>\<open>r === "publisher"\<close> of lines 136 and 163 on what a connection's handlers
  closed over.
\<close>

definition is_publisher :: "closure \<Rightarrow> bool" where
  "is_publisher cl = (c_r cl = ''publisher'')"

text \<open>The object that line 118 creates.\<close>

definition fresh_session :: session where
  "fresh_session = \<lparr> lastState = JNull, publishers = 0, viewers = 0 \<rparr>"

text \<open>The increment of lines 136 and 137 and the clamped decrement of lines 163 and 164.\<close>

definition bump :: "string \<Rightarrow> session \<Rightarrow> session" where
  "bump r s = (if r = ''publisher'' then s\<lparr> publishers := publishers s + 1 \<rparr>
               else s\<lparr> viewers := viewers s + 1 \<rparr>)"

definition drop_one :: "string \<Rightarrow> session \<Rightarrow> session" where
  "drop_one r s = (if r = ''publisher'' then s\<lparr> publishers := max 0 (publishers s - 1) \<rparr>
                   else s\<lparr> viewers := max 0 (viewers s - 1) \<rparr>)"

text \<open>What line 153 stores, \<^verbatim>\<open>payload.data || null\<close>, and what lines 140 to 142 emit.\<close>

definition cache :: "jsval \<Rightarrow> jsval" where
  "cache d = (if truthy d then d else JNull)"

definition catch_up :: "nat \<Rightarrow> jsval \<Rightarrow> action list" where
  "catch_up c v = (if truthy v then [SendTo c (JObj [(''type'', JStr ''state''), (''data'', v)])] else [])"

text \<open>The cleanup of lines 167 to 169.\<close>

definition evict :: "string \<Rightarrow> nat \<Rightarrow> state \<Rightarrow> state" where
  "evict g p st = (if publishers (heap st p) = 0 \<and> viewers (heap st p) = 0
                   then st\<lparr> sessions := (sessions st)(g := None) \<rparr> else st)"

text \<open>
  The session that an input addresses: the one a handshake names, or the one the
  sending or leaving connection is attached to.
\<close>

definition target :: "state \<Rightarrow> input \<Rightarrow> string option" where
  "target st i =
     (case i of
        Connect sk hq \<Rightarrow> (if sid_of hq = [] then None else Some (sid_of hq))
      | Event c payload \<Rightarrow> map_option c_sid (conns st c)
      | Disconnect c \<Rightarrow> map_option c_sid (conns st c))"

text \<open>
  An input that is a processed event of type \<^verbatim>\<open>"state"\<close> from a connection of
  session \<open>g\<close>; a run without any; a run during which \<open>g\<close> stays registered.
\<close>

definition state_event :: "state \<Rightarrow> string \<Rightarrow> input \<Rightarrow> bool" where
  "state_event st g i =
     (case i of
        Event c payload \<Rightarrow>
          (case conns st c of
             Some cl \<Rightarrow> c_sid cl = g \<and> structured payload \<and> get_prop payload ''type'' = JStr ''state''
           | None \<Rightarrow> False)
      | Connect sk hq \<Rightarrow> False
      | Disconnect c \<Rightarrow> False)"

fun silent :: "state \<Rightarrow> string \<Rightarrow> input list \<Rightarrow> bool" where
  "silent st g [] = True"
| "silent st g (i # is) = (\<not> state_event st g i \<and> silent (fst (step st i)) g is)"

fun kept :: "state \<Rightarrow> string \<Rightarrow> input list \<Rightarrow> bool" where
  "kept st g [] = True"
| "kept st g (i # is) = (sessions (fst (step st i)) g \<noteq> None \<and> kept (fst (step st i)) g is)"

text \<open>
  The connections attached to a session, all and by role, and the invariant of the
  relay: every connection is attached to the registered object of its session, a room
  holds the connections of the session of that name and the connections whose socket
  has that id, distinct sessions have distinct objects, the counters count the
  attached connections, a registered session has one, and a cached state is null or
  truthy.
\<close>

definition attached :: "state \<Rightarrow> string \<Rightarrow> nat set" where
  "attached st g = {c. \<exists>cl. conns st c = Some cl \<and> c_sid cl = g}"

definition live :: "state \<Rightarrow> string \<Rightarrow> bool \<Rightarrow> nat set" where
  "live st g pub = {c. \<exists>cl. conns st c = Some cl \<and> c_sid cl = g \<and> (c_r cl = ''publisher'') = pub}"

definition inv :: "state \<Rightarrow> bool" where
  "inv st \<longleftrightarrow>
     (\<forall>c cl. conns st c = Some cl \<longrightarrow>
        c < nextConn st \<and> sessions st (c_sid cl) = Some (c_s cl) \<and> c_sid cl \<noteq> []) \<and>
     (\<forall>g. rooms st g = {c. \<exists>cl. conns st c = Some cl \<and> (c_sid cl = g \<or> c_id cl = g)}) \<and>
     (\<forall>g p. sessions st g = Some p \<longrightarrow> p < nextRef st) \<and>
     (\<forall>g g' p. sessions st g = Some p \<longrightarrow> sessions st g' = Some p \<longrightarrow> g = g') \<and>
     (\<forall>g p. sessions st g = Some p \<longrightarrow>
        publishers (heap st p) = int (card (live st g True)) \<and>
        viewers (heap st p) = int (card (live st g False)) \<and> attached st g \<noteq> {}) \<and>
     (\<forall>g p. sessions st g = Some p \<longrightarrow>
        lastState (heap st p) = JNull \<or> truthy (lastState (heap st p)))"

text \<open>
  Shorthand for concrete runs: a handshake of the socket with id \<open>sk\<close> with both query
  parameters, and the object
  \<^verbatim>\<open>{ type: "state", data: v }\<close>.
\<close>

abbreviation (input) join :: "string \<Rightarrow> string \<Rightarrow> string \<Rightarrow> input" where
  "join sk g r \<equiv> Connect sk (Some \<lparr> sessionId = Some g, role = Some r \<rparr>)"

abbreviation (input) state_msg :: "jsval \<Rightarrow> jsval" where
  "state_msg v \<equiv> JObj [(''type'', JStr ''state''), (''data'', v)]"

section \<open>The handlers, case by case\<close>

lemma inv_init: "inv init"
  by (simp add: inv_def init_def live_def attached_def)

lemma finite_live: "inv st \<Longrightarrow> finite (live st g pub)"
proof -
  assume a: "inv st"
  have "live st g pub \<subseteq> {..<nextConn st}"
    using a by (auto simp: inv_def live_def)
  then show ?thesis by (rule finite_subset) simp
qed

lemma onConnect_reject_fields:
  assumes "sid_of hq = []"
  shows "snd (onConnect st sk hq) = [ForceDisconnect (nextConn st)]"
    and "nextConn (fst (onConnect st sk hq)) = Suc (nextConn st)"
    and "conns (fst (onConnect st sk hq)) = conns st"
    and "sessions (fst (onConnect st sk hq)) = sessions st"
    and "heap (fst (onConnect st sk hq)) = heap st"
    and "nextRef (fst (onConnect st sk hq)) = nextRef st"
    and "rooms (fst (onConnect st sk hq)) g = rooms st g - {nextConn st}"
  using assms by (simp_all add: onConnect_def Let_def)

lemma lastState_bump [simp]: "lastState (bump r s) = lastState s"
  by (simp add: bump_def)

lemma onConnect_existing:
  assumes "sid_of hq \<noteq> []" "sessions st (sid_of hq) = Some p"
  shows "nextConn (fst (onConnect st sk hq)) = Suc (nextConn st)"
    and "rooms (fst (onConnect st sk hq)) x =
       (if x = sk \<or> x = sid_of hq then insert (nextConn st) (rooms st x) else rooms st x)"
    and "sessions (fst (onConnect st sk hq)) = sessions st"
    and "heap (fst (onConnect st sk hq)) = (heap st)(p := bump (r_of hq) (heap st p))"
    and "nextRef (fst (onConnect st sk hq)) = nextRef st"
    and "conns (fst (onConnect st sk hq)) =
       (conns st)(nextConn st \<mapsto> \<lparr> c_id = sk, c_sid = sid_of hq, c_r = r_of hq, c_s = p \<rparr>)"
    and "snd (onConnect st sk hq) = catch_up (nextConn st) (lastState (heap st p))"
  using assms
  by (auto simp: onConnect_def Let_def getSession_def bump_def catch_up_def)

lemma onConnect_fresh:
  assumes "sid_of hq \<noteq> []" "sessions st (sid_of hq) = None"
  shows "nextConn (fst (onConnect st sk hq)) = Suc (nextConn st)"
    and "rooms (fst (onConnect st sk hq)) x =
       (if x = sk \<or> x = sid_of hq then insert (nextConn st) (rooms st x) else rooms st x)"
    and "sessions (fst (onConnect st sk hq)) = (sessions st)(sid_of hq \<mapsto> nextRef st)"
    and "heap (fst (onConnect st sk hq)) =
       (heap st)(nextRef st := bump (r_of hq) \<lparr> lastState = JNull, publishers = 0, viewers = 0 \<rparr>)"
    and "nextRef (fst (onConnect st sk hq)) = Suc (nextRef st)"
    and "conns (fst (onConnect st sk hq)) =
       (conns st)(nextConn st \<mapsto> \<lparr> c_id = sk, c_sid = sid_of hq, c_r = r_of hq, c_s = nextRef st \<rparr>)"
    and "snd (onConnect st sk hq) = []"
  using assms
  by (auto simp: onConnect_def Let_def getSession_def bump_def catch_up_def)

lemma live_connect:
  assumes "inv st" "conns st' = (conns st)(nextConn st \<mapsto> \<lparr> c_id = sk, c_sid = g, c_r = r, c_s = p \<rparr>)"
  shows "live st' g' pub =
     (if g' = g \<and> pub = (r = ''publisher'') then insert (nextConn st) (live st g' pub) else live st g' pub)"
proof -
  have fresh: "conns st (nextConn st) = None"
    using assms(1) by (cases "conns st (nextConn st)") (auto simp: inv_def)
  show ?thesis
    using fresh assms(2) by (auto simp: live_def split: if_splits)
qed

lemma fresh_not_live: "inv st \<Longrightarrow> nextConn st \<notin> live st g pub"
  by (auto simp: inv_def live_def)

lemma card_live_connect:
  assumes "inv st" "conns st' = (conns st)(nextConn st \<mapsto> \<lparr> c_id = sk, c_sid = g, c_r = r, c_s = p \<rparr>)"
  shows "int (card (live st' g' pub)) =
     (if g' = g \<and> pub = (r = ''publisher'') then int (card (live st g' pub)) + 1 else int (card (live st g' pub)))"
  using live_connect[OF assms] finite_live[OF assms(1)] fresh_not_live[OF assms(1)]
  by simp

lemma no_session_no_conn:
  "inv st \<Longrightarrow> sessions st g = None \<Longrightarrow> live st g pub = {}"
  by (auto simp: inv_def live_def)

lemma invD_conn: "inv st \<Longrightarrow> conns st c = Some cl \<Longrightarrow> c < nextConn st"
  and invD_owner: "inv st \<Longrightarrow> conns st c = Some cl \<Longrightarrow> sessions st (c_sid cl) = Some (c_s cl)"
  and invD_sid: "inv st \<Longrightarrow> conns st c = Some cl \<Longrightarrow> c_sid cl \<noteq> []"
  and invD_rooms: "inv st \<Longrightarrow>
        rooms st g = {c. \<exists>cl. conns st c = Some cl \<and> (c_sid cl = g \<or> c_id cl = g)}"
  and invD_ref: "inv st \<Longrightarrow> sessions st g = Some p \<Longrightarrow> p < nextRef st"
  and invD_inj: "inv st \<Longrightarrow> sessions st g = Some p \<Longrightarrow> sessions st g' = Some p \<Longrightarrow> g = g'"
  and invD_pub: "inv st \<Longrightarrow> sessions st g = Some p \<Longrightarrow> publishers (heap st p) = int (card (live st g True))"
  and invD_view: "inv st \<Longrightarrow> sessions st g = Some p \<Longrightarrow> viewers (heap st p) = int (card (live st g False))"
  and invD_nonempty: "inv st \<Longrightarrow> sessions st g = Some p \<Longrightarrow> attached st g \<noteq> {}"
  and invD_state: "inv st \<Longrightarrow> sessions st g = Some p \<Longrightarrow>
        lastState (heap st p) = JNull \<or> truthy (lastState (heap st p))"
  unfolding inv_def by blast+

lemma invI:
  assumes "\<And>c cl. conns st c = Some cl \<Longrightarrow> c < nextConn st"
    and "\<And>c cl. conns st c = Some cl \<Longrightarrow> sessions st (c_sid cl) = Some (c_s cl)"
    and "\<And>c cl. conns st c = Some cl \<Longrightarrow> c_sid cl \<noteq> []"
    and "\<And>g. rooms st g = {c. \<exists>cl. conns st c = Some cl \<and> (c_sid cl = g \<or> c_id cl = g)}"
    and "\<And>g p. sessions st g = Some p \<Longrightarrow> p < nextRef st"
    and "\<And>g g' p. sessions st g = Some p \<Longrightarrow> sessions st g' = Some p \<Longrightarrow> g = g'"
    and "\<And>g p. sessions st g = Some p \<Longrightarrow> publishers (heap st p) = int (card (live st g True))"
    and "\<And>g p. sessions st g = Some p \<Longrightarrow> viewers (heap st p) = int (card (live st g False))"
    and "\<And>g p. sessions st g = Some p \<Longrightarrow> attached st g \<noteq> {}"
    and "\<And>g p. sessions st g = Some p \<Longrightarrow>
        lastState (heap st p) = JNull \<or> truthy (lastState (heap st p))"
  shows "inv st"
  unfolding inv_def using assms by (intro conjI allI impI) blast+

lemma fresh_conn: "inv st \<Longrightarrow> conns st (nextConn st) = None"
  by (cases "conns st (nextConn st)") (auto dest: invD_conn)

lemma fresh_rooms: "inv st \<Longrightarrow> nextConn st \<notin> rooms st g"
  using fresh_conn[of st] by (simp add: invD_rooms)

lemma inv_reject: "inv st \<Longrightarrow> inv (st\<lparr> nextConn := Suc (nextConn st) \<rparr>)"
  by (auto simp: inv_def live_def attached_def less_Suc_eq)

lemma onConnect_reject:
  assumes "inv st" "sid_of hq = []"
  shows "onConnect st sk hq = (st\<lparr> nextConn := Suc (nextConn st) \<rparr>, [ForceDisconnect (nextConn st)])"
proof -
  have "(\<lambda>g. ((rooms st)(sk := insert (nextConn st) (rooms st sk))) g - {nextConn st}) = rooms st"
    using fresh_rooms[OF assms(1)] by (auto simp: fun_eq_iff)
  then show ?thesis using assms(2) by (simp add: onConnect_def Let_def)
qed

lemma attached_heap_upd [simp]: "attached (st\<lparr> heap := h \<rparr>) g = attached st g"
  by (simp add: attached_def)

lemma attached_connect:
  assumes "conns st (nextConn st) = None"
    and "conns st' = (conns st)(nextConn st \<mapsto> cl)"
  shows "attached st' g = (if g = c_sid cl then insert (nextConn st) (attached st g) else attached st g)"
  using assms by (auto simp: attached_def split: if_splits)

lemma attached_disconnect:
  assumes "conns st' = (conns st)(c := None)"
  shows "attached st' g = attached st g - {c}"
  using assms by (auto simp: attached_def split: if_splits)

lemma live_attached: "live st g pub \<subseteq> attached st g"
  by (auto simp: live_def attached_def)

lemma inv_connect_fresh:
  assumes a: "inv st" and ne: "sid_of hq \<noteq> []" and None: "sessions st (sid_of hq) = None"
  shows "inv (fst (onConnect st sk hq))"
proof (rule invI)
  let ?st' = "fst (onConnect st sk hq)"
  note eq = onConnect_fresh[OF ne None]
  have c: "conns ?st' = (conns st)(nextConn st \<mapsto>
      \<lparr> c_id = sk, c_sid = sid_of hq, c_r = r_of hq, c_s = nextRef st \<rparr>)"
    by (simp add: eq)
  note cl = card_live_connect[OF a c]
  have e: "live st (sid_of hq) pub = {}" for pub
    using no_session_no_conn[OF a None] .
  note fresh = fresh_conn[OF a]
  show "c < nextConn ?st'" if "conns ?st' c = Some cl" for c cl
    using that invD_conn[OF a, of c cl] by (auto simp: eq less_Suc_eq split: if_splits)
  show "c_sid cl \<noteq> []" if "conns ?st' c = Some cl" for c cl
    using that invD_sid[OF a, of c cl] ne by (auto simp: eq split: if_splits)
  show "sessions ?st' (c_sid cl) = Some (c_s cl)" if "conns ?st' c = Some cl" for c cl
  proof (cases "c = nextConn st")
    case True then show ?thesis using that by (auto simp: eq)
  next
    case False
    then have o: "conns st c = Some cl" using that by (simp add: eq)
    then have "sessions st (c_sid cl) = Some (c_s cl)" by (rule invD_owner[OF a])
    moreover from this have "c_sid cl \<noteq> sid_of hq" using None by auto
    ultimately show ?thesis by (simp add: eq)
  qed
  show "rooms ?st' g = {c. \<exists>cl. conns ?st' c = Some cl \<and> (c_sid cl = g \<or> c_id cl = g)}" for g
    using fresh by (auto simp: eq invD_rooms[OF a])
  show "p < nextRef ?st'" if "sessions ?st' g = Some p" for g p
    using that invD_ref[OF a, of g p] by (auto simp: eq less_Suc_eq split: if_splits)
  show "g = g'" if "sessions ?st' g = Some p" "sessions ?st' g' = Some p" for g g' p
    using that invD_inj[OF a, of g p g'] invD_ref[OF a, of g p] invD_ref[OF a, of g' p]
    by (auto simp: eq split: if_splits)
  have old: "sessions st g = Some p \<and> p \<noteq> nextRef st"
    if "sessions ?st' g = Some p" "g \<noteq> sid_of hq" for g p
    using that invD_ref[OF a, of g p] by (auto simp: eq)
  show "publishers (heap ?st' p) = int (card (live ?st' g True))" if s: "sessions ?st' g = Some p" for g p
  proof (cases "g = sid_of hq")
    case True
    then show ?thesis using s e by (simp add: cl) (simp add: eq bump_def)
  next
    case False
    then show ?thesis using old[OF s False] invD_pub[OF a, of g p]
      by (simp add: cl) (simp add: eq)
  qed
  show "viewers (heap ?st' p) = int (card (live ?st' g False))" if s: "sessions ?st' g = Some p" for g p
  proof (cases "g = sid_of hq")
    case True
    then show ?thesis using s e by (simp add: cl) (simp add: eq bump_def)
  next
    case False
    then show ?thesis using old[OF s False] invD_view[OF a, of g p]
      by (simp add: cl) (simp add: eq)
  qed
  show "attached ?st' g \<noteq> {}" if s: "sessions ?st' g = Some p" for g p
  proof (cases "g = sid_of hq")
    case True then show ?thesis by (simp add: attached_connect[OF fresh c])
  next
    case False
    then show ?thesis using old[OF s False] invD_nonempty[OF a, of g p]
      by (simp add: attached_connect[OF fresh c])
  qed
  show "lastState (heap ?st' p) = JNull \<or> truthy (lastState (heap ?st' p))"
    if s: "sessions ?st' g = Some p" for g p
  proof (cases "g = sid_of hq")
    case True then show ?thesis using s by (simp add: eq)
  next
    case False
    then show ?thesis using old[OF s False] invD_state[OF a, of g p] by (simp add: eq)
  qed
qed

lemma inv_connect_existing:
  assumes a: "inv st" and ne: "sid_of hq \<noteq> []" and Some: "sessions st (sid_of hq) = Some q"
  shows "inv (fst (onConnect st sk hq))"
proof (rule invI)
  let ?st' = "fst (onConnect st sk hq)"
  note eq = onConnect_existing[OF ne Some]
  have c: "conns ?st' = (conns st)(nextConn st \<mapsto>
      \<lparr> c_id = sk, c_sid = sid_of hq, c_r = r_of hq, c_s = q \<rparr>)"
    by (simp add: eq)
  note cl = card_live_connect[OF a c]
  note fresh = fresh_conn[OF a]
  have se: "sessions ?st' = sessions st" by (simp add: eq)
  show "c < nextConn ?st'" if "conns ?st' c = Some cl" for c cl
    using that invD_conn[OF a, of c cl] by (auto simp: eq less_Suc_eq split: if_splits)
  show "c_sid cl \<noteq> []" if "conns ?st' c = Some cl" for c cl
    using that invD_sid[OF a, of c cl] ne by (auto simp: eq split: if_splits)
  show "sessions ?st' (c_sid cl) = Some (c_s cl)" if "conns ?st' c = Some cl" for c cl
    using that invD_owner[OF a, of c cl] Some by (auto simp: eq split: if_splits)
  show "rooms ?st' g = {c. \<exists>cl. conns ?st' c = Some cl \<and> (c_sid cl = g \<or> c_id cl = g)}" for g
    using fresh by (auto simp: eq invD_rooms[OF a])
  show "p < nextRef ?st'" if "sessions ?st' g = Some p" for g p
    using that invD_ref[OF a, of g p] by (auto simp: eq)
  show "g = g'" if "sessions ?st' g = Some p" "sessions ?st' g' = Some p" for g g' p
    using that invD_inj[OF a, of g p g'] by (auto simp: eq)
  have other: "p \<noteq> q" if "sessions st g = Some p" "g \<noteq> sid_of hq" for g p
    using that invD_inj[OF a, of g p "sid_of hq"] Some by auto
  show "publishers (heap ?st' p) = int (card (live ?st' g True))" if s: "sessions ?st' g = Some p" for g p
  proof (cases "g = sid_of hq")
    case True
    then have "p = q" using s Some by (simp add: se)
    then show ?thesis using True invD_pub[OF a Some] by (simp add: cl) (simp add: eq bump_def)
  next
    case False
    then show ?thesis using other[OF s[unfolded se] False] invD_pub[OF a s[unfolded se]]
      by (simp add: cl) (simp add: eq)
  qed
  show "viewers (heap ?st' p) = int (card (live ?st' g False))" if s: "sessions ?st' g = Some p" for g p
  proof (cases "g = sid_of hq")
    case True
    then have "p = q" using s Some by (simp add: se)
    then show ?thesis using True invD_view[OF a Some] by (simp add: cl) (simp add: eq bump_def)
  next
    case False
    then show ?thesis using other[OF s[unfolded se] False] invD_view[OF a s[unfolded se]]
      by (simp add: cl) (simp add: eq)
  qed
  show "attached ?st' g \<noteq> {}" if s: "sessions ?st' g = Some p" for g p
    using invD_nonempty[OF a s[unfolded se]] by (auto simp: attached_connect[OF fresh c])
  show "lastState (heap ?st' p) = JNull \<or> truthy (lastState (heap ?st' p))"
    if s: "sessions ?st' g = Some p" for g p
    using invD_state[OF a s[unfolded se]] invD_state[OF a Some] by (auto simp: eq)
qed

lemma inv_onConnect: "inv st \<Longrightarrow> inv (fst (onConnect st sk hq))"
proof -
  assume a: "inv st"
  show ?thesis
  proof (cases "sid_of hq = []")
    case True
    then show ?thesis using inv_reject[OF a] by (simp add: onConnect_reject[OF a])
  next
    case ne: False
    show ?thesis
      by (cases "sessions st (sid_of hq)")
         (auto intro: inv_connect_fresh[OF a ne] inv_connect_existing[OF a ne])
  qed
qed

lemma onEvent_dead: "conns st c = None \<Longrightarrow> onEvent st c payload = (st, [])"
  by (simp add: onEvent_def)

lemma guard_structured: "(\<not> truthy v \<or> typeof v \<noteq> ''object'') \<longleftrightarrow> \<not> structured v"
  by (cases v) auto

lemma onEvent_malformed: "\<not> structured payload \<Longrightarrow> onEvent st c payload = (st, [])"
  using guard_structured[of payload] by (simp add: onEvent_def split: option.splits)

lemma onEvent_state:
  assumes "conns st c = Some cl" "structured payload" "get_prop payload ''type'' = JStr ''state''"
  shows "onEvent st c payload =
    (st\<lparr> heap := (heap st)(c_s cl := (heap st (c_s cl))\<lparr> lastState := cache (get_prop payload ''data'') \<rparr>) \<rparr>,
     [BroadcastToGroup (c_sid cl) payload])"
  using assms guard_structured[of payload] by (simp add: onEvent_def cache_def)

lemma onEvent_other:
  assumes "conns st c = Some cl" "structured payload" "get_prop payload ''type'' \<noteq> JStr ''state''"
  shows "onEvent st c payload = (st, [BroadcastToGroup (c_sid cl) payload])"
  using assms guard_structured[of payload] by (simp add: onEvent_def)

lemma live_heap_upd [simp]: "live (st\<lparr> heap := h \<rparr>) g pub = live st g pub"
  by (simp add: live_def)

lemma inv_heap_lastState:
  assumes a: "inv st" and v: "v = JNull \<or> truthy v"
  shows "inv (st\<lparr> heap := (heap st)(p := (heap st p)\<lparr> lastState := v \<rparr>) \<rparr>)"
proof (rule invI)
  let ?st' = "st\<lparr> heap := (heap st)(p := (heap st p)\<lparr> lastState := v \<rparr>) \<rparr>"
  show "c < nextConn ?st'" if "conns ?st' c = Some cl" for c cl
    using that invD_conn[OF a, of c cl] by simp
  show "c_sid cl \<noteq> []" if "conns ?st' c = Some cl" for c cl
    using that invD_sid[OF a, of c cl] by simp
  show "sessions ?st' (c_sid cl) = Some (c_s cl)" if "conns ?st' c = Some cl" for c cl
    using that invD_owner[OF a, of c cl] by simp
  show "rooms ?st' g = {c. \<exists>cl. conns ?st' c = Some cl \<and> (c_sid cl = g \<or> c_id cl = g)}" for g
    using invD_rooms[OF a, of g] by simp
  show "q < nextRef ?st'" if "sessions ?st' g = Some q" for g q
    using that invD_ref[OF a, of g q] by simp
  show "g = g'" if "sessions ?st' g = Some q" "sessions ?st' g' = Some q" for g g' q
    using that invD_inj[OF a, of g q g'] by simp
  show "publishers (heap ?st' q) = int (card (live ?st' g True))" if "sessions ?st' g = Some q" for g q
    using that invD_pub[OF a, of g q] by auto
  show "viewers (heap ?st' q) = int (card (live ?st' g False))" if "sessions ?st' g = Some q" for g q
    using that invD_view[OF a, of g q] by auto
  show "attached ?st' g \<noteq> {}" if "sessions ?st' g = Some q" for g q
    using that invD_nonempty[OF a, of g q] by simp
  show "lastState (heap ?st' q) = JNull \<or> truthy (lastState (heap ?st' q))"
    if "sessions ?st' g = Some q" for g q
    using that invD_state[OF a, of g q] v by auto
qed

lemma cache_ok: "cache d = JNull \<or> truthy (cache d)"
  by (simp add: cache_def)

lemma inv_onEvent: "inv st \<Longrightarrow> inv (fst (onEvent st c payload))"
proof -
  assume a: "inv st"
  show ?thesis
  proof (cases "conns st c")
    case None then show ?thesis using a by (simp add: onEvent_dead)
  next
    case (Some cl)
    show ?thesis
    proof (cases "structured payload")
      case False then show ?thesis using a by (simp add: onEvent_malformed)
    next
      case True
      show ?thesis
      proof (cases "get_prop payload ''type'' = JStr ''state''")
        case True
        show ?thesis using inv_heap_lastState[OF a cache_ok]
          by (simp add: onEvent_state[OF Some \<open>structured payload\<close> True])
      next
        case False
        show ?thesis using a by (simp add: onEvent_other[OF Some True False])
      qed
    qed
  qed
qed

lemma onDisconnect_dead: "conns st c = None \<Longrightarrow> onDisconnect st c = (st, [])"
  by (simp add: onDisconnect_def)

lemma onDisconnect_live:
  assumes "conns st c = Some cl" "sessions st (c_sid cl) = Some p"
  shows "onDisconnect st c =
    (evict (c_sid cl) p
       (st\<lparr> conns := (conns st)(c := None),
            rooms := (\<lambda>g. rooms st g - {c}),
            heap := (heap st)(p := drop_one (c_r cl) (heap st p)) \<rparr>), [])"
  using assms by (auto simp: onDisconnect_def Let_def getSession_def drop_one_def evict_def)

lemma live_disconnect:
  assumes "conns st' = (conns st)(c := None)"
  shows "live st' g pub = live st g pub - {c}"
  using assms by (auto simp: live_def split: if_splits)

lemma live_evict [simp]: "live (evict g p st) g' pub = live st g' pub"
  by (simp add: evict_def live_def)

lemma mem_live:
  "conns st c = Some cl \<Longrightarrow> c \<in> live st g pub \<longleftrightarrow> g = c_sid cl \<and> pub = (c_r cl = ''publisher'')"
  by (auto simp: live_def)

lemma card_live_disconnect:
  assumes a: "inv st" and c: "conns st c = Some cl" and e: "conns st' = (conns st)(c := None)"
  shows "int (card (live st' g pub)) =
     (if g = c_sid cl \<and> pub = (c_r cl = ''publisher'') then int (card (live st g pub)) - 1
      else int (card (live st g pub)))"
proof (cases "g = c_sid cl \<and> pub = (c_r cl = ''publisher'')")
  case True
  then have m: "c \<in> live st g pub" using mem_live[OF c] by simp
  have "card (live st g pub - {c}) = card (live st g pub) - 1"
    using m finite_live[OF a] by simp
  moreover have "card (live st g pub) \<ge> 1"
    using m finite_live[OF a, of g pub] by (metis One_nat_def Suc_leI card_gt_0_iff empty_iff)
  ultimately show ?thesis using True by (simp add: live_disconnect[OF e])
next
  case False
  then have "c \<notin> live st g pub" using mem_live[OF c] by simp
  then show ?thesis using False by (simp add: live_disconnect[OF e])
qed

lemma lastState_drop_one [simp]: "lastState (drop_one r s) = lastState s"
  by (simp add: drop_one_def)

lemma attached_evict [simp]: "attached (evict g p st) g' = attached st g'"
  by (simp add: evict_def attached_def)

lemma evict_fields [simp]:
  "conns (evict g p st) = conns st" "rooms (evict g p st) = rooms st"
  "heap (evict g p st) = heap st" "nextRef (evict g p st) = nextRef st"
  "nextConn (evict g p st) = nextConn st"
  by (simp_all add: evict_def)

lemma sessions_evict:
  "sessions (evict g p st) g' = Some q \<longleftrightarrow>
     sessions st g' = Some q \<and> (g' = g \<longrightarrow> \<not> (publishers (heap st p) = 0 \<and> viewers (heap st p) = 0))"
  by (auto simp: evict_def)

lemma inv_onDisconnect_live:
  assumes a: "inv st" and c: "conns st c = Some cl"
  shows "inv (fst (onDisconnect st c))"
proof -
  define g where "g = c_sid cl"
  define p where "p = c_s cl"
  define st1 where "st1 = st\<lparr> conns := (conns st)(c := None),
            rooms := (\<lambda>x. rooms st x - {c}),
            heap := (heap st)(p := drop_one (c_r cl) (heap st p)) \<rparr>"
  have sp: "sessions st g = Some p" using invD_owner[OF a c] by (simp add: g_def p_def)
  have eq: "fst (onDisconnect st c) = evict g p st1"
    using onDisconnect_live[OF c sp[unfolded g_def]] by (simp add: st1_def g_def)
  have f1 [simp]: "conns st1 = (conns st)(c := None)" "sessions st1 = sessions st"
    "nextConn st1 = nextConn st" "nextRef st1 = nextRef st"
    "rooms st1 = (\<lambda>x. rooms st x - {c})"
    "heap st1 = (heap st)(p := drop_one (c_r cl) (heap st p))"
    by (simp_all add: st1_def)
  note cnt = card_live_disconnect[OF a c f1(1), folded g_def]
  have sub: "live st1 g' pub \<subseteq> live st g' pub" for g' pub
    by (auto simp: live_disconnect[OF f1(1)])
  have fin: "finite (live st1 g' pub)" for g' pub
    using finite_subset[OF sub finite_live[OF a]] .
  have pc: "publishers (heap st1 p) = int (card (live st1 g True))"
    using invD_pub[OF a sp] cnt[of g True] by (auto simp: drop_one_def)
  have vc: "viewers (heap st1 p) = int (card (live st1 g False))"
    using invD_view[OF a sp] cnt[of g False] by (auto simp: drop_one_def)
  have oth: "q \<noteq> p" if "sessions st g' = Some q" "g' \<noteq> g" for g' q
    using invD_inj[OF a, of g' q g] that sp by auto
  have gone: "live st1 g pub = {}" if "publishers (heap st1 p) = 0" "viewers (heap st1 p) = 0" for pub
    using that pc vc fin[of g True] fin[of g False] by (cases pub) auto
  show ?thesis unfolding eq
  proof (rule invI)
    let ?st' = "evict g p st1"
    show "d < nextConn ?st'" if "conns ?st' d = Some cl'" for d cl'
      using that invD_conn[OF a, of d cl'] by (auto split: if_splits)
    show "c_sid cl' \<noteq> []" if "conns ?st' d = Some cl'" for d cl'
      using that invD_sid[OF a, of d cl'] by (auto split: if_splits)
    show "sessions ?st' (c_sid cl') = Some (c_s cl')" if h: "conns ?st' d = Some cl'" for d cl'
    proof -
      have o: "conns st d = Some cl'" "d \<noteq> c" using h by (auto split: if_splits)
      have s: "sessions st (c_sid cl') = Some (c_s cl')" using invD_owner[OF a o(1)] .
      have "\<not> (publishers (heap st1 p) = 0 \<and> viewers (heap st1 p) = 0)" if "c_sid cl' = g"
      proof
        assume z: "publishers (heap st1 p) = 0 \<and> viewers (heap st1 p) = 0"
        have "d \<in> live st1 g (c_r cl' = ''publisher'')"
          using o that by (auto simp: live_def)
        then show False using gone z by blast
      qed
      then show ?thesis using s by (auto simp: sessions_evict)
    qed
    show "rooms ?st' g' = {d. \<exists>cl'. conns ?st' d = Some cl' \<and> (c_sid cl' = g' \<or> c_id cl' = g')}" for g'
      using c by (auto simp: invD_rooms[OF a])
    show "q < nextRef ?st'" if "sessions ?st' g' = Some q" for g' q
      using that invD_ref[OF a, of g' q] by (auto simp: sessions_evict)
    show "g1 = g2" if "sessions ?st' g1 = Some q" "sessions ?st' g2 = Some q" for g1 g2 q
      using that invD_inj[OF a, of g1 q g2] by (auto simp: sessions_evict)
    show "publishers (heap ?st' q) = int (card (live ?st' g' True))" if h: "sessions ?st' g' = Some q" for g' q
    proof (cases "g' = g")
      case True
      then have "q = p" using h sp by (auto simp: sessions_evict)
      then show ?thesis using pc True by simp
    next
      case False
      then have s: "sessions st g' = Some q" using h by (auto simp: sessions_evict)
      show ?thesis using oth[OF s False] invD_pub[OF a s] cnt[of g' True] False by simp
    qed
    show "viewers (heap ?st' q) = int (card (live ?st' g' False))" if h: "sessions ?st' g' = Some q" for g' q
    proof (cases "g' = g")
      case True
      then have "q = p" using h sp by (auto simp: sessions_evict)
      then show ?thesis using vc True by simp
    next
      case False
      then have s: "sessions st g' = Some q" using h by (auto simp: sessions_evict)
      show ?thesis using oth[OF s False] invD_view[OF a s] cnt[of g' False] False by simp
    qed
    show "attached ?st' g' \<noteq> {}" if h: "sessions ?st' g' = Some q" for g' q
    proof (cases "g' = g")
      case True
      then have nz: "\<not> (publishers (heap st1 p) = 0 \<and> viewers (heap st1 p) = 0)"
        using h by (auto simp: sessions_evict)
      then have "live st1 g True \<noteq> {} \<or> live st1 g False \<noteq> {}"
        using pc vc by auto
      then obtain d pub where "d \<in> live st1 g pub" by blast
      then have "d \<in> attached st1 g" using live_attached by blast
      then show ?thesis using True by auto
    next
      case False
      then have s: "sessions st g' = Some q" using h by (auto simp: sessions_evict)
      have "c \<notin> attached st g'" using c False by (auto simp: attached_def g_def)
      then show ?thesis using invD_nonempty[OF a s]
        by (simp add: attached_disconnect[OF f1(1)])
    qed
    show "lastState (heap ?st' q) = JNull \<or> truthy (lastState (heap ?st' q))"
      if h: "sessions ?st' g' = Some q" for g' q
    proof -
      have s: "sessions st g' = Some q" using h by (auto simp: sessions_evict)
      show ?thesis using invD_state[OF a s] by auto
    qed
  qed
qed

lemma inv_onDisconnect: "inv st \<Longrightarrow> inv (fst (onDisconnect st c))"
  by (cases "conns st c") (auto simp: onDisconnect_dead intro: inv_onDisconnect_live)

lemma inv_step: "inv st \<Longrightarrow> inv (fst (step st i))"
  by (cases i) (auto intro: inv_onConnect inv_onEvent inv_onDisconnect)

lemma inv_exec: "inv st \<Longrightarrow> inv (exec st is)"
  by (induction "is" arbitrary: st) (auto intro: inv_step)

lemma inv_run: "inv (exec init is)"
  by (rule inv_exec[OF inv_init])


section \<open>The effect of one step on a session\<close>

lemma catch_up_null [simp]: "catch_up c JNull = []"
  by (simp add: catch_up_def)

lemma connect_lookup:
  assumes "sid_of hq \<noteq> []"
  shows "lookup (fst (onConnect st sk hq)) (sid_of hq) =
     Some (bump (r_of hq) (case lookup st (sid_of hq) of None \<Rightarrow> fresh_session | Some s \<Rightarrow> s))"
    and "snd (onConnect st sk hq) = catch_up (nextConn st) (cached st (sid_of hq))"
    and "conns (fst (onConnect st sk hq)) =
       (conns st)(nextConn st \<mapsto> \<lparr> c_id = sk, c_sid = sid_of hq, c_r = r_of hq,
          c_s = (case sessions st (sid_of hq) of None \<Rightarrow> nextRef st | Some p \<Rightarrow> p) \<rparr>)"
    and "rooms (fst (onConnect st sk hq)) x =
       (if x = sk \<or> x = sid_of hq then insert (nextConn st) (rooms st x) else rooms st x)"
    and "nextConn (fst (onConnect st sk hq)) = Suc (nextConn st)"
  using assms
  by (cases "sessions st (sid_of hq)";
      simp add: onConnect_fresh onConnect_existing lookup_def cached_def fresh_session_def)+

lemma event_lookup:
  assumes a: "inv st" and c: "conns st c = Some cl"
  shows "lookup st (c_sid cl) = Some (heap st (c_s cl))"
    and "lookup (fst (onEvent st c payload)) (c_sid cl) =
       Some (if structured payload \<and> get_prop payload ''type'' = JStr ''state''
             then (heap st (c_s cl))\<lparr> lastState := cache (get_prop payload ''data'') \<rparr>
             else heap st (c_s cl))"
    and "snd (onEvent st c payload) =
       (if structured payload then [BroadcastToGroup (c_sid cl) payload] else [])"
    and "rooms (fst (onEvent st c payload)) = rooms st"
    and "conns (fst (onEvent st c payload)) = conns st"
    and "sessions (fst (onEvent st c payload)) = sessions st"
proof -
  note o = invD_owner[OF a c]
  show "lookup st (c_sid cl) = Some (heap st (c_s cl))" using o by (simp add: lookup_def)
  consider "\<not> structured payload"
    | "structured payload" "get_prop payload ''type'' = JStr ''state''"
    | "structured payload" "get_prop payload ''type'' \<noteq> JStr ''state''" by blast
  then have "lookup (fst (onEvent st c payload)) (c_sid cl) =
       Some (if structured payload \<and> get_prop payload ''type'' = JStr ''state''
             then (heap st (c_s cl))\<lparr> lastState := cache (get_prop payload ''data'') \<rparr>
             else heap st (c_s cl)) \<and>
     snd (onEvent st c payload) =
       (if structured payload then [BroadcastToGroup (c_sid cl) payload] else []) \<and>
     rooms (fst (onEvent st c payload)) = rooms st \<and>
     conns (fst (onEvent st c payload)) = conns st \<and>
     sessions (fst (onEvent st c payload)) = sessions st"
    using o c
    by cases (simp_all add: onEvent_malformed onEvent_state onEvent_other lookup_def)
  then show "lookup (fst (onEvent st c payload)) (c_sid cl) =
       Some (if structured payload \<and> get_prop payload ''type'' = JStr ''state''
             then (heap st (c_s cl))\<lparr> lastState := cache (get_prop payload ''data'') \<rparr>
             else heap st (c_s cl))"
    and "snd (onEvent st c payload) =
       (if structured payload then [BroadcastToGroup (c_sid cl) payload] else [])"
    and "rooms (fst (onEvent st c payload)) = rooms st"
    and "conns (fst (onEvent st c payload)) = conns st"
    and "sessions (fst (onEvent st c payload)) = sessions st"
    by blast+
qed

lemma disconnect_lookup:
  assumes a: "inv st" and c: "conns st c = Some cl"
  shows "lookup (fst (onDisconnect st c)) (c_sid cl) =
     (if publishers (drop_one (c_r cl) (heap st (c_s cl))) = 0 \<and>
         viewers (drop_one (c_r cl) (heap st (c_s cl))) = 0
      then None else Some (drop_one (c_r cl) (heap st (c_s cl))))"
    and "heap (fst (onDisconnect st c)) (c_s cl) = drop_one (c_r cl) (heap st (c_s cl))"
    and "snd (onDisconnect st c) = []"
  using onDisconnect_live[OF c invD_owner[OF a c]] invD_owner[OF a c]
  by (simp_all add: lookup_def evict_def)

lemma isolation_step:
  assumes a: "inv st" and t: "target st i \<noteq> Some g"
  shows "lookup (fst (step st i)) g = lookup st g"
proof (cases i)
  case (Connect sk hq)
  show ?thesis
  proof (cases "sid_of hq = []")
    case True then show ?thesis using Connect by (simp add: onConnect_reject[OF a] lookup_def)
  next
    case ne: False
    then have d: "sid_of hq \<noteq> g" using t Connect by (simp add: target_def)
    show ?thesis
    proof (cases "sessions st (sid_of hq)")
      case None
      have "q \<noteq> nextRef st" if "sessions st g = Some q" for q
        using invD_ref[OF a that] by simp
      then show ?thesis using Connect d
        by (cases "sessions st g") (auto simp: onConnect_fresh[OF ne None] lookup_def)
    next
      case (Some p)
      have "q \<noteq> p" if "sessions st g = Some q" for q
        using invD_inj[OF a, of g q "sid_of hq"] that Some d by auto
      then show ?thesis using Connect d
        by (cases "sessions st g") (auto simp: onConnect_existing[OF ne Some] lookup_def)
    qed
  qed
next
  case (Event c payload)
  show ?thesis
  proof (cases "conns st c")
    case None then show ?thesis using Event by (simp add: onEvent_dead)
  next
    case (Some cl)
    then have d: "c_sid cl \<noteq> g" using t Event by (simp add: target_def)
    have "q \<noteq> c_s cl" if "sessions st g = Some q" for q
      using invD_inj[OF a, of g q "c_sid cl"] that invD_owner[OF a Some] d by auto
    then show ?thesis using Event Some
      by (cases "sessions st g"; cases "structured payload";
          cases "get_prop payload ''type'' = JStr ''state''")
         (auto simp: onEvent_malformed onEvent_state onEvent_other lookup_def)
  qed
next
  case (Disconnect c)
  show ?thesis
  proof (cases "conns st c")
    case None then show ?thesis using Disconnect by (simp add: onDisconnect_dead)
  next
    case (Some cl)
    then have d: "c_sid cl \<noteq> g" using t Disconnect by (simp add: target_def)
    have "q \<noteq> c_s cl" if "sessions st g = Some q" for q
      using invD_inj[OF a, of g q "c_sid cl"] that invD_owner[OF a Some] d by auto
    then show ?thesis using Disconnect d
      by (cases "sessions st g")
         (auto simp: onDisconnect_live[OF Some invD_owner[OF a Some]] lookup_def evict_def)
  qed
qed

lemma received_catch_up:
  "received st (catch_up c v) d = (if d = c \<and> truthy v then [JObj [(''type'', JStr ''state''), (''data'', v)]] else [])"
  by (simp add: catch_up_def)

lemma step_actions:
  "snd (step st i) =
     (case i of
        Connect sk hq \<Rightarrow> (if sid_of hq = [] then [ForceDisconnect (nextConn st)]
                       else catch_up (nextConn st) (cached st (sid_of hq)))
      | Event c payload \<Rightarrow>
          (case conns st c of
             None \<Rightarrow> []
           | Some cl \<Rightarrow> if structured payload then [BroadcastToGroup (c_sid cl) payload] else [])
      | Disconnect c \<Rightarrow> [])"
proof (cases i)
  case (Connect sk hq)
  then show ?thesis by (simp add: onConnect_reject_fields(1) connect_lookup(2))
next
  case (Event c payload)
  then show ?thesis
    using guard_structured[of payload] by (auto simp: onEvent_def Let_def split: option.splits)
next
  case (Disconnect c)
  then show ?thesis by (auto simp: onDisconnect_def Let_def split: option.splits prod.splits)
qed

lemma step_rooms_event: "rooms (fst (step st (Event c payload))) = rooms st"
  by (auto simp: onEvent_def Let_def split: option.splits)

lemma received_step:
  assumes a: "inv st"
  shows "received (fst (step st i)) (snd (step st i)) d =
     (case i of
        Connect sk hq \<Rightarrow>
          (if sid_of hq \<noteq> [] \<and> d = nextConn st \<and> cached st (sid_of hq) \<noteq> JNull
           then [JObj [(''type'', JStr ''state''), (''data'', cached st (sid_of hq))]] else [])
      | Event c payload \<Rightarrow>
          (case conns st c of
             None \<Rightarrow> []
           | Some cl \<Rightarrow> if structured payload \<and> d \<in> rooms st (c_sid cl) then [payload] else [])
      | Disconnect c \<Rightarrow> [])"
proof (cases i)
  case (Connect sk hq)
  have "truthy (cached st g) \<longleftrightarrow> cached st g \<noteq> JNull" for g
    using invD_state[OF a, of g] by (auto simp: cached_def lookup_def split: option.splits)
  then show ?thesis using Connect
    by (simp add: step_actions received_catch_up del: step.simps)
next
  case (Event c payload)
  then show ?thesis
    by (simp add: step_actions step_rooms_event del: step.simps split: option.splits)
next
  case (Disconnect c)
  then show ?thesis by (simp add: step_actions del: step.simps)
qed

lemma isolation_received:
  assumes a: "inv st" and t: "target st i = Some g"
    and d: "conns st d = Some cl" and s: "c_sid cl \<noteq> g" and k: "c_id cl \<noteq> g"
  shows "received (fst (step st i)) (snd (step st i)) d = []"
proof -
  have lt: "d < nextConn st" using invD_conn[OF a d] .
  have n: "d \<notin> rooms st g" using d s k by (auto simp: invD_rooms[OF a])
  show ?thesis
  proof (cases i)
    case (Connect sk hq)
    then show ?thesis using lt by (simp add: received_step[OF a] del: step.simps)
  next
    case (Event c payload)
    then show ?thesis using t n
      by (auto simp: received_step[OF a] target_def simp del: step.simps split: option.splits)
  next
    case (Disconnect c)
    then show ?thesis by (simp add: received_step[OF a] del: step.simps)
  qed
qed

lemma cached_step:
  assumes a: "inv st" and n: "\<not> state_event st g i"
  shows "cached (fst (step st i)) g =
     (if sessions (fst (step st i)) g = None then JNull else cached st g)"
proof (cases "target st i = Some g")
  case False
  show ?thesis using isolation_step[OF a False]
    by (auto simp: cached_def lookup_def split: option.splits)
next
  case True
  show ?thesis
  proof (cases i)
    case (Connect sk hq)
    then have g: "sid_of hq = g" "sid_of hq \<noteq> []" using True by (auto simp: target_def split: if_splits)
    show ?thesis using connect_lookup(1)[OF g(2), where st=st and sk=sk] Connect g(1)
      by (auto simp: cached_def fresh_session_def lookup_def split: option.splits)
  next
    case (Event c payload)
    then obtain cl where cl: "conns st c = Some cl" "c_sid cl = g"
      using True by (auto simp: target_def)
    have "\<not> (structured payload \<and> get_prop payload ''type'' = JStr ''state'')"
      using n Event cl by (simp add: state_event_def)
    then show ?thesis using event_lookup(1)[OF a cl(1)] event_lookup(2)[OF a cl(1), of payload] Event cl(2)
      by (auto simp: cached_def lookup_def split: option.splits)
  next
    case (Disconnect c)
    then obtain cl where cl: "conns st c = Some cl" "c_sid cl = g"
      using True by (auto simp: target_def)
    show ?thesis using disconnect_lookup(1)[OF a cl(1)] event_lookup(1)[OF a cl(1)] Disconnect cl(2)
      by (auto simp: cached_def lookup_def split: option.splits if_splits)
  qed
qed

lemma cached_quiet:
  assumes "inv st" "silent st g is" "kept st g is"
  shows "cached (exec st is) g = cached st g"
  using assms
proof (induction "is" arbitrary: st)
  case Nil then show ?case by simp
next
  case (Cons i "is")
  have "cached (exec (fst (step st i)) is) g = cached (fst (step st i)) g"
    using Cons.prems by (intro Cons.IH inv_step) auto
  also have "\<dots> = cached st g"
    using cached_step[of st g i] Cons.prems by auto
  finally show ?case by simp
qed

lemma cached_silent_null:
  assumes "inv st" "silent st g is" "cached st g = JNull"
  shows "cached (exec st is) g = JNull"
  using assms
proof (induction "is" arbitrary: st)
  case Nil then show ?case by simp
next
  case (Cons i "is")
  have "cached (fst (step st i)) g = JNull"
    using cached_step[of st g i] Cons.prems by auto
  then have "cached (exec (fst (step st i)) is) g = JNull"
    using Cons.prems by (intro Cons.IH inv_step) auto
  then show ?case by simp
qed

lemma exec_append: "exec st (xs @ ys) = exec (exec st xs) ys"
  by (induction xs arbitrary: st) auto

lemma inbox_append: "inbox st (xs @ ys) c = inbox st xs c @ inbox (exec st xs) ys c"
  by (induction xs arbitrary: st) auto

lemma nextConn_step: "nextConn st \<le> nextConn (fst (step st i))"
proof (cases i)
  case (Connect sk hq)
  then show ?thesis
    by (cases "sid_of hq = []") (simp_all add: onConnect_reject_fields(2) connect_lookup(5))
next
  case (Event c payload)
  then show ?thesis by (auto simp: onEvent_def Let_def split: option.splits)
next
  case (Disconnect c)
  then show ?thesis
    by (auto simp: onDisconnect_def getSession_def Let_def split: option.splits prod.splits)
qed

lemma nextConn_exec: "nextConn st \<le> nextConn (exec st is)"
proof (induction "is" arbitrary: st)
  case Nil then show ?case by simp
next
  case (Cons i "is")
  show ?case using nextConn_step[of st i] Cons.IH[of "fst (step st i)"] by simp
qed

lemma inbox_unborn:
  assumes "inv st" "nextConn (exec st is) \<le> c"
  shows "inbox st is c = []"
  using assms
proof (induction "is" arbitrary: st)
  case Nil then show ?case by simp
next
  case (Cons i "is")
  let ?st' = "fst (step st i)"
  have b: "nextConn ?st' \<le> c" using nextConn_exec[of ?st' "is"] Cons.prems(2) by simp
  then have b0: "nextConn st < c \<or> (nextConn st = c \<and> nextConn ?st' = nextConn st)"
    using nextConn_step[of st i] by auto
  have r: "received ?st' (snd (step st i)) c = []"
  proof (cases i)
    case (Connect sk hq)
    have "nextConn st \<noteq> c"
    proof (cases "sid_of hq = []")
      case True then show ?thesis using b Connect by (simp add: onConnect_reject_fields(2))
    next
      case False then show ?thesis using b Connect by (simp add: connect_lookup(5))
    qed
    then show ?thesis using Connect by (simp add: received_step[OF Cons.prems(1)] del: step.simps)
  next
    case (Event d payload)
    have "c \<notin> rooms st g" for g
      using invD_conn[OF Cons.prems(1), of c] b0 by (auto simp: invD_rooms[OF Cons.prems(1)])
    then show ?thesis using Event by (simp add: received_step[OF Cons.prems(1)] del: step.simps split: option.splits)
  next
    case (Disconnect d)
    then show ?thesis by (simp add: received_step[OF Cons.prems(1)] del: step.simps)
  qed
  have "inbox ?st' is c = []"
    using Cons.prems by (intro Cons.IH inv_step) auto
  then show ?case using r by simp
qed

lemma truthy_cached: "inv st \<Longrightarrow> truthy (cached st g) \<longleftrightarrow> cached st g \<noteq> JNull"
  using invD_state[of st g] by (auto simp: cached_def lookup_def split: option.splits)

lemma catch_up_cached:
  "inv st \<Longrightarrow> catch_up c (cached st g) =
     (if cached st g \<noteq> JNull then [SendTo c (state_msg (cached st g))] else [])"
  by (simp add: catch_up_def truthy_cached)

lemma conns_step_dead:
  assumes "c < nextConn st" "conns st c = None"
  shows "conns (fst (step st i)) c = None"
proof (cases i)
  case (Connect sk hq)
  then show ?thesis using assms
    by (cases "sid_of hq = []") (simp_all add: onConnect_reject_fields(3) connect_lookup(3))
next
  case (Event d payload)
  then show ?thesis using assms by (auto simp: onEvent_def Let_def split: option.splits)
next
  case (Disconnect d)
  then show ?thesis using assms
    by (auto simp: onDisconnect_def getSession_def Let_def split: option.splits prod.splits)
qed

lemma conns_exec_dead:
  assumes "c < nextConn st" "conns st c = None"
  shows "conns (exec st is) c = None"
  using assms
proof (induction "is" arbitrary: st)
  case Nil then show ?case by simp
next
  case (Cons i "is")
  have "c < nextConn (fst (step st i))"
    using Cons.prems(1) nextConn_step[of st i] by simp
  then show ?case using conns_step_dead[OF Cons.prems] Cons.IH by simp
qed

section \<open>Concrete runs\<close>

lemmas run_defs = init_def onConnect_def onEvent_def onDisconnect_def getSession_def Let_def
  sid_of_def r_of_def handshake_query_def String_or_empty_def trim_def is_ws_def
  lookup_def cached_def

section \<open>Properties of the relay\<close>

text \<open>
  C7.  An inbound payload that is null, absent or not a structured object (a bare
  string, number or boolean) is dropped by the \<^verbatim>\<open>hb:event\<close> handler: the relay asks
  nothing of the transport (no broadcast, no message to the sender, no forced close),
  and the whole state is as before, so the session's cached state, both counters and
  the connection itself are untouched.
\<close>

theorem C7_malformed_event_dropped:
  assumes "payload = JNull \<or> payload = JUndefined \<or> \<not> structured payload"
  shows "step st (Event c payload) = (st, [])"
proof -
  have "\<not> structured payload" using assms by auto
  then show ?thesis by (simp add: onEvent_malformed)
qed

theorem C7_malformed_event_dropped_witness:
  "\<not> structured (JStr ''hello'') \<and>
   step (exec init [join ''k1'' ''abc'' ''publisher''])
        (Event 0 (JStr ''hello'')) =
     (exec init [join ''k1'' ''abc'' ''publisher''], []) \<and>
   conns (exec init [join ''k1'' ''abc'' ''publisher'']) 0 =
     Some \<lparr> c_id = ''k1'', c_sid = ''abc'', c_r = ''publisher'', c_s = 0 \<rparr>"
  using C7_malformed_event_dropped[of "JStr ''hello''"
      "exec init [join ''k1'' ''abc'' ''publisher'']" 0]
  by (simp add: run_defs)

text \<open>
  C1.  A handshake with a non-empty session identifier, after any run of the relay,
  attaches the new connection to that session.  If the session's cached state is not
  null, the handler asks for exactly one point-to-point send to the new connection,
  the object of type \<^verbatim>\<open>"state"\<close> carrying the cached state, and nothing else; that
  object is all the new connection has received up to the end of its handshake, so it
  precedes any broadcast; no other connection receives anything from the handshake;
  and the cached state of the session is as before.  If the cached state is null
  (also when the session did not exist), nothing is sent.
\<close>

theorem C1_catch_up_on_join:
  assumes "sid_of hq \<noteq> []"
  shows "let st = exec init is; c = nextConn st; v = cached st (sid_of hq);
             st' = fst (step st (Connect sk hq)); acts = snd (step st (Connect sk hq))
         in map_option c_sid (conns st' c) = Some (sid_of hq) \<and>
            acts = (if v \<noteq> JNull then [SendTo c (state_msg v)] else []) \<and>
            inbox init (is @ [Connect sk hq]) c = (if v \<noteq> JNull then [state_msg v] else []) \<and>
            (\<forall>d. d \<noteq> c \<longrightarrow> received st' acts d = []) \<and>
            cached st' (sid_of hq) = v"
proof -
  define st where "st = exec init is"
  have a: "inv st" unfolding st_def by (rule inv_run)
  note cl = connect_lookup[OF assms, where st=st and sk=sk]
  have 1: "map_option c_sid (conns (fst (step st (Connect sk hq))) (nextConn st)) = Some (sid_of hq)"
    by (simp add: cl(3))
  have 2: "snd (step st (Connect sk hq)) =
      (if cached st (sid_of hq) \<noteq> JNull then [SendTo (nextConn st) (state_msg (cached st (sid_of hq)))] else [])"
    by (simp add: cl(2) catch_up_cached[OF a])
  have r: "received (fst (step st (Connect sk hq))) (snd (step st (Connect sk hq))) d =
      (if d = nextConn st \<and> cached st (sid_of hq) \<noteq> JNull then [state_msg (cached st (sid_of hq))] else [])" for d
    using assms by (simp add: received_step[OF a] del: step.simps)
  have "inbox init is (nextConn st) = []"
    unfolding st_def by (rule inbox_unborn[OF inv_init]) simp
  then have 3: "inbox init (is @ [Connect sk hq]) (nextConn st) =
      (if cached st (sid_of hq) \<noteq> JNull then [state_msg (cached st (sid_of hq))] else [])"
    using r[of "nextConn st"] by (simp add: inbox_append st_def del: step.simps)
  have 4: "\<forall>d. d \<noteq> nextConn st \<longrightarrow> received (fst (step st (Connect sk hq))) (snd (step st (Connect sk hq))) d = []"
    using r by simp
  have 5: "cached (fst (step st (Connect sk hq))) (sid_of hq) = cached st (sid_of hq)"
    using cl(1) by (auto simp: cached_def fresh_session_def split: option.splits)
  show ?thesis
    unfolding Let_def st_def[symmetric] using 1 2 3 4 5 by blast
qed

theorem C1_catch_up_on_join_witness:
  "sid_of (Some \<lparr> sessionId = Some ''abc'', role = Some ''viewer'' \<rparr>) \<noteq> [] \<and>
   cached (exec init [join ''k1'' ''abc'' ''publisher'', Event 0 (state_msg (JObj [(''x'', JNum 1)]))]) ''abc'' =
     JObj [(''x'', JNum 1)] \<and>
   snd (step (exec init [join ''k1'' ''abc'' ''publisher'', Event 0 (state_msg (JObj [(''x'', JNum 1)]))])
         (join ''k2'' ''abc'' ''viewer'')) = [SendTo 1 (state_msg (JObj [(''x'', JNum 1)]))] \<and>
   inbox init ([join ''k1'' ''abc'' ''publisher'', Event 0 (state_msg (JObj [(''x'', JNum 1)]))] @
               [join ''k2'' ''abc'' ''viewer'']) 1 = [state_msg (JObj [(''x'', JNum 1)])] \<and>
   snd (step (exec init [join ''k1'' ''abc'' ''publisher'']) (join ''k2'' ''abc'' ''viewer'')) = []"
  using C1_catch_up_on_join[of "Some \<lparr> sessionId = Some ''abc'', role = Some ''viewer'' \<rparr>"
      "[join ''k1'' ''abc'' ''publisher'', Event 0 (state_msg (JObj [(''x'', JNum 1)]))]" "''k2''"]
    C1_catch_up_on_join[of "Some \<lparr> sessionId = Some ''abc'', role = Some ''viewer'' \<rparr>"
      "[join ''k1'' ''abc'' ''publisher'']" "''k2''"]
  by (simp add: run_defs)

text \<open>
  C2.  After a connection of a session has sent a well-formed event of type
  \<^verbatim>\<open>"state"\<close> whose data \<open>d\<close> is truthy, \<^verbatim>\<open>{score: 5}\<close> for one (whatever other fields the
  event has), and after any further run in which no event of type \<^verbatim>\<open>"state"\<close> is
  processed in that session and the session stays registered, a connection that joins
  the session is sent exactly \<^verbatim>\<open>{type: "state", data: d}\<close>, and that is all it has
  received when its handshake ends.
\<close>

theorem C2_state_round_trip:
  assumes "conns (exec init is) c = Some cl"
    and "structured payload"
    and "get_prop payload ''type'' = JStr ''state''"
    and "get_prop payload ''data'' = d"
    and "truthy d"
    and "silent (exec init (is @ [Event c payload])) (c_sid cl) mid"
    and "kept (exec init (is @ [Event c payload])) (c_sid cl) mid"
    and "sid_of hq = c_sid cl"
  shows "let st = exec init (is @ Event c payload # mid)
         in snd (step st (Connect sk hq)) = [SendTo (nextConn st) (state_msg d)] \<and>
            inbox init (is @ Event c payload # mid @ [Connect sk hq]) (nextConn st) =
              [state_msg d]"
proof -
  define st0 where "st0 = exec init is"
  define st1 where "st1 = exec init (is @ [Event c payload])"
  define st where "st = exec init (is @ Event c payload # mid)"
  have a0: "inv st0" and a1: "inv st1" and a: "inv st"
    unfolding st0_def st1_def st_def by (rule inv_run)+
  have e1: "st1 = fst (step st0 (Event c payload))"
    by (simp add: st1_def st0_def exec_append)
  have e2: "st = exec st1 mid"
    by (simp add: st_def st1_def exec_append)
  have c0: "conns st0 c = Some cl" using assms(1) by (simp add: st0_def)
  have "lookup st1 (c_sid cl) =
      Some ((heap st0 (c_s cl))\<lparr> lastState := cache d \<rparr>)"
    using event_lookup(2)[OF a0 c0, of payload] assms(2,3,4,5) by (simp add: e1)
  then have "cached st1 (c_sid cl) = d"
    using assms(5) by (simp add: cached_def cache_def)
  then have v: "cached st (sid_of hq) = d"
    using cached_quiet[OF a1, of "c_sid cl" mid] assms(6,7,8) by (simp add: e2 st1_def)
  have ne: "sid_of hq \<noteq> []" using invD_sid[OF a0 c0] assms(8) by simp
  have 1: "snd (step st (Connect sk hq)) = [SendTo (nextConn st) (state_msg d)]"
    using connect_lookup(2)[OF ne, where st=st and sk=sk] v assms(5) by (simp add: catch_up_def)
  have "inbox init (is @ Event c payload # mid) (nextConn st) = []"
    unfolding st_def by (rule inbox_unborn[OF inv_init]) simp
  then have "inbox init ((is @ Event c payload # mid) @ [Connect sk hq]) (nextConn st) =
      [state_msg d]"
    using received_step[OF a, of "Connect sk hq" "nextConn st"] ne v assms(5)
    unfolding inbox_append[of init "is @ Event c payload # mid"]
    by (auto simp: st_def simp del: step.simps)
  then have 2: "inbox init (is @ Event c payload # mid @ [Connect sk hq]) (nextConn st) =
      [state_msg d]" by simp
  show ?thesis unfolding Let_def st_def[symmetric] using 1 2 by blast
qed

theorem C2_state_round_trip_witness:
  "conns (exec init [join ''k1'' ''abc'' ''publisher'']) 0 = Some \<lparr> c_id = ''k1'', c_sid = ''abc'', c_r = ''publisher'', c_s = 0 \<rparr> \<and>
   structured (JObj [(''type'', JStr ''state''), (''data'', JObj [(''score'', JNum 5)]), (''ts'', JNum 17)]) \<and>
   get_prop (JObj [(''type'', JStr ''state''), (''data'', JObj [(''score'', JNum 5)]), (''ts'', JNum 17)]) ''data'' =
     JObj [(''score'', JNum 5)] \<and>
   truthy (JObj [(''score'', JNum 5)]) \<and>
   silent (exec init ([join ''k1'' ''abc'' ''publisher''] @
            [Event 0 (JObj [(''type'', JStr ''state''), (''data'', JObj [(''score'', JNum 5)]), (''ts'', JNum 17)])]))
     ''abc'' [Event 0 (JObj [(''type'', JStr ''emoji'')]), join ''k3'' ''xyz'' ''publisher'',
              Event 1 (state_msg (JNum 7)), join ''k2'' ''abc'' ''viewer'', Disconnect 0] \<and>
   kept (exec init ([join ''k1'' ''abc'' ''publisher''] @
            [Event 0 (JObj [(''type'', JStr ''state''), (''data'', JObj [(''score'', JNum 5)]), (''ts'', JNum 17)])]))
     ''abc'' [Event 0 (JObj [(''type'', JStr ''emoji'')]), join ''k3'' ''xyz'' ''publisher'',
              Event 1 (state_msg (JNum 7)), join ''k2'' ''abc'' ''viewer'', Disconnect 0] \<and>
   sid_of (Some \<lparr> sessionId = Some '' abc '', role = None \<rparr>) = ''abc'' \<and>
   nextConn (exec init ([join ''k1'' ''abc'' ''publisher''] @
            Event 0 (JObj [(''type'', JStr ''state''), (''data'', JObj [(''score'', JNum 5)]), (''ts'', JNum 17)]) #
            [Event 0 (JObj [(''type'', JStr ''emoji'')]), join ''k3'' ''xyz'' ''publisher'',
             Event 1 (state_msg (JNum 7)), join ''k2'' ''abc'' ''viewer'', Disconnect 0])) = 3 \<and>
   snd (step (exec init ([join ''k1'' ''abc'' ''publisher''] @
            Event 0 (JObj [(''type'', JStr ''state''), (''data'', JObj [(''score'', JNum 5)]), (''ts'', JNum 17)]) #
            [Event 0 (JObj [(''type'', JStr ''emoji'')]), join ''k3'' ''xyz'' ''publisher'',
             Event 1 (state_msg (JNum 7)), join ''k2'' ''abc'' ''viewer'', Disconnect 0]))
        (Connect ''k7'' (Some \<lparr> sessionId = Some '' abc '', role = None \<rparr>))) =
     [SendTo 3 (state_msg (JObj [(''score'', JNum 5)]))]"
proof -
  let ?is = "[join ''k1'' ''abc'' ''publisher'']"
  let ?cl = "\<lparr> c_id = ''k1'', c_sid = ''abc'', c_r = ''publisher'', c_s = 0 \<rparr>"
  let ?p = "JObj [(''type'', JStr ''state''), (''data'', JObj [(''score'', JNum 5)]), (''ts'', JNum 17)]"
  let ?mid = "[Event 0 (JObj [(''type'', JStr ''emoji'')]), join ''k3'' ''xyz'' ''publisher'',
              Event 1 (state_msg (JNum 7)), join ''k2'' ''abc'' ''viewer'', Disconnect 0]"
  let ?hq = "Some \<lparr> sessionId = Some '' abc '', role = None \<rparr>"
  have h1: "conns (exec init ?is) 0 = Some ?cl" by (simp add: run_defs)
  have h2: "structured ?p" by simp
  have h3: "get_prop ?p ''type'' = JStr ''state''" by simp
  have h4: "get_prop ?p ''data'' = JObj [(''score'', JNum 5)]" by simp
  have h4': "truthy (JObj [(''score'', JNum 5)])" by simp
  have h5: "silent (exec init (?is @ [Event 0 ?p])) (c_sid ?cl) ?mid"
    by (simp add: run_defs state_event_def)
  have h6: "kept (exec init (?is @ [Event 0 ?p])) (c_sid ?cl) ?mid"
    by (simp add: run_defs)
  have h7: "sid_of ?hq = c_sid ?cl" by (simp add: run_defs)
  have n: "nextConn (exec init (?is @ Event 0 ?p # ?mid)) = 3" by (simp add: run_defs)
  note t = C2_state_round_trip[OF h1 h2 h3 h4 h4' h5 h6 h7, where sk = "''k7''", unfolded Let_def n]
  show ?thesis
    using h1 h2 h5 h6 h7 n t by simp
qed

text \<open>
  C3.  After any run, every registered session has non-negative counters that are not
  both zero, and a session without attached connections is not registered.  When the
  disconnect of a connection leaves the object of its session with both counters
  zero, the session is absent from the registry as soon as that disconnect handler
  has returned.
\<close>

theorem C3_immediate_eviction:
  "(\<forall>g s. lookup (exec init is) g = Some s \<longrightarrow>
       0 \<le> publishers s \<and> 0 \<le> viewers s \<and> \<not> (publishers s = 0 \<and> viewers s = 0)) \<and>
   (\<forall>g. attached (exec init is) g = {} \<longrightarrow> lookup (exec init is) g = None) \<and>
   (\<forall>c cl. conns (exec init is) c = Some cl \<longrightarrow>
       publishers (heap (exec init (is @ [Disconnect c])) (c_s cl)) = 0 \<longrightarrow>
       viewers (heap (exec init (is @ [Disconnect c])) (c_s cl)) = 0 \<longrightarrow>
       lookup (exec init (is @ [Disconnect c])) (c_sid cl) = None)"
proof -
  define st where "st = exec init is"
  have a: "inv st" unfolding st_def by (rule inv_run)
  have 1: "0 \<le> publishers s \<and> 0 \<le> viewers s \<and> \<not> (publishers s = 0 \<and> viewers s = 0)"
    if l: "lookup st g = Some s" for g s
  proof -
    obtain p where p: "sessions st g = Some p" "s = heap st p"
      using l by (auto simp: lookup_def)
    obtain d where "d \<in> attached st g" using invD_nonempty[OF a p(1)] by blast
    then obtain cl where "conns st d = Some cl" "c_sid cl = g"
      by (auto simp: attached_def)
    then have "d \<in> live st g (c_r cl = ''publisher'')" by (auto simp: live_def)
    then have "card (live st g (c_r cl = ''publisher'')) > 0"
      using finite_live[OF a] by (auto simp: card_gt_0_iff)
    then show ?thesis
      using invD_pub[OF a p(1)] invD_view[OF a p(1)] p(2) by (cases "c_r cl = ''publisher''") auto
  qed
  have 2: "lookup st g = None" if "attached st g = {}" for g
    using that invD_nonempty[OF a, of g] by (cases "sessions st g") (auto simp: lookup_def)
  have 3: "lookup (exec init (is @ [Disconnect c])) (c_sid cl) = None"
    if "conns st c = Some cl"
      "publishers (heap (exec init (is @ [Disconnect c])) (c_s cl)) = 0"
      "viewers (heap (exec init (is @ [Disconnect c])) (c_s cl)) = 0" for c cl
    using that disconnect_lookup(1,2)[OF a that(1)]
    by (simp add: exec_append st_def)
  show ?thesis unfolding st_def[symmetric] using 1 2 3 by blast
qed

theorem C3_immediate_eviction_witness:
  "lookup (exec init [join ''k1'' ''abc'' ''publisher'', join ''k2'' ''abc'' ''viewer'', Disconnect 0]) ''abc'' =
     Some \<lparr> lastState = JNull, publishers = 0, viewers = 1 \<rparr> \<and>
   attached (exec init [join ''k1'' ''abc'' ''publisher'', join ''k2'' ''abc'' ''viewer'', Disconnect 0]) ''xyz'' = {} \<and>
   lookup (exec init [join ''k1'' ''abc'' ''publisher'', join ''k2'' ''abc'' ''viewer'', Disconnect 0]) ''xyz'' = None \<and>
   conns (exec init [join ''k1'' ''abc'' ''publisher'', join ''k2'' ''abc'' ''viewer'', Disconnect 0]) 1 =
     Some \<lparr> c_id = ''k2'', c_sid = ''abc'', c_r = ''viewer'', c_s = 0 \<rparr> \<and>
   publishers (heap (exec init ([join ''k1'' ''abc'' ''publisher'', join ''k2'' ''abc'' ''viewer'', Disconnect 0] @
     [Disconnect 1])) 0) = 0 \<and>
   viewers (heap (exec init ([join ''k1'' ''abc'' ''publisher'', join ''k2'' ''abc'' ''viewer'', Disconnect 0] @
     [Disconnect 1])) 0) = 0 \<and>
   lookup (exec init ([join ''k1'' ''abc'' ''publisher'', join ''k2'' ''abc'' ''viewer'', Disconnect 0] @
     [Disconnect 1])) ''abc'' = None"
proof -
  let ?is = "[join ''k1'' ''abc'' ''publisher'', join ''k2'' ''abc'' ''viewer'', Disconnect 0]"
  let ?cl = "\<lparr> c_id = ''k2'', c_sid = ''abc'', c_r = ''viewer'', c_s = 0 \<rparr>"
  have h0: "lookup (exec init ?is) ''abc'' = Some \<lparr> lastState = JNull, publishers = 0, viewers = 1 \<rparr>"
    by (simp add: run_defs)
  have h1: "attached (exec init ?is) ''xyz'' = {}"
    by (auto simp: attached_def run_defs split: if_splits)
  have h2: "conns (exec init ?is) 1 = Some ?cl"
    by (simp add: run_defs)
  have h3: "publishers (heap (exec init (?is @ [Disconnect 1])) (c_s ?cl)) = 0"
    and h4: "viewers (heap (exec init (?is @ [Disconnect 1])) (c_s ?cl)) = 0"
    by (simp_all add: run_defs)
  note t = C3_immediate_eviction[of ?is]
  have c2: "lookup (exec init ?is) ''xyz'' = None"
    using t h1 by blast
  have c3: "lookup (exec init (?is @ [Disconnect 1])) (c_sid ?cl) = None"
    using t h2 h3 h4 by blast
  show ?thesis
    using h0 h1 h2 h3 h4 c2 c3 by simp
qed

text \<open>
  C4.  A well-formed event from a connected connection whose \<^verbatim>\<open>type\<close> is strictly
  equal to \<^verbatim>\<open>"state"\<close> sets the cached state of the connection's session, which is
  registered, to the event's \<^verbatim>\<open>data\<close> if that value is truthy and to null otherwise
  (absent, null, false, 0, NaN or the empty string); an event of any other type leaves
  the cached state as it was.
\<close>

theorem C4_state_cached:
  assumes "conns (exec init is) c = Some cl" and "structured payload"
  shows "lookup (exec init is) (c_sid cl) \<noteq> None \<and>
         cached (exec init (is @ [Event c payload])) (c_sid cl) =
           (if get_prop payload ''type'' = JStr ''state''
            then (if truthy (get_prop payload ''data'') then get_prop payload ''data'' else JNull)
            else cached (exec init is) (c_sid cl))"
proof -
  define st where "st = exec init is"
  have a: "inv st" unfolding st_def by (rule inv_run)
  have c: "conns st c = Some cl" using assms(1) by (simp add: st_def)
  show ?thesis
    using event_lookup(1)[OF a c] event_lookup(2)[OF a c, of payload] assms(2)
    by (simp add: exec_append st_def[symmetric] cached_def cache_def)
qed

theorem C4_state_cached_witness:
  "conns (exec init [join ''k1'' ''abc'' ''publisher'']) 0 =
     Some \<lparr> c_id = ''k1'', c_sid = ''abc'', c_r = ''publisher'', c_s = 0 \<rparr> \<and>
   structured (state_msg (JObj [(''x'', JNum 1)])) \<and>
   cached (exec init ([join ''k1'' ''abc'' ''publisher''] @ [Event 0 (state_msg (JObj [(''x'', JNum 1)]))])) ''abc'' =
     JObj [(''x'', JNum 1)] \<and>
   cached (exec init ([join ''k1'' ''abc'' ''publisher''] @ [Event 0 (state_msg (JStr []))])) ''abc'' = JNull"
proof -
  let ?cl = "\<lparr> c_id = ''k1'', c_sid = ''abc'', c_r = ''publisher'', c_s = 0 \<rparr>"
  have h1: "conns (exec init [join ''k1'' ''abc'' ''publisher'']) 0 = Some ?cl"
    by (simp add: run_defs)
  have h2: "structured (state_msg (JObj [(''x'', JNum 1)]))" "structured (state_msg (JStr []))"
    by simp_all
  show ?thesis
    using h1 h2 C4_state_cached[OF h1 h2(1)] C4_state_cached[OF h1 h2(2)] by simp
qed

text \<open>
  C4, counterexample to the reading that the cached state becomes the event's
  \<^verbatim>\<open>data\<close> field whenever that field is present.  The event \<^verbatim>\<open>{type: "state", data: 0}\<close> has a
  \<^verbatim>\<open>data\<close> field, 0, and line 153 caches null for it.
\<close>

theorem C4_falsy_data_counterexample:
  "get_prop (state_msg (JNum 0)) ''type'' = JStr ''state'' \<and>
   get_prop (state_msg (JNum 0)) ''data'' = JNum 0 \<and>
   cached (exec init [join ''k1'' ''abc'' ''publisher'', Event 0 (state_msg (JNum 0))]) ''abc'' = JNull \<and>
   cached (exec init [join ''k1'' ''abc'' ''publisher'', Event 0 (state_msg (JNum 0))]) ''abc'' \<noteq>
     get_prop (state_msg (JNum 0)) ''data''"
  by (simp add: run_defs)

text \<open>
  C5.  A handshake with a non-empty session identifier records the connection as a
  publisher if and only if the supplied role, after \<^verbatim>\<open>String(role || "").trim()\<close>, is
  case-sensitively \<^verbatim>\<open>"publisher"\<close>, and as a viewer for every other value, an absent
  role included; the matching counter of the session (a new session starts at zero) is
  incremented by exactly one and nothing else of the session object changes.
\<close>

theorem C5_role_normalised:
  assumes "sid_of hq \<noteq> []"
  shows "let st = exec init is; st' = exec init (is @ [Connect sk hq]);
             before = (case lookup st (sid_of hq) of None \<Rightarrow> fresh_session | Some s \<Rightarrow> s);
             pub = (trim (String_or_empty (role (handshake_query hq))) = ''publisher'')
         in map_option is_publisher (conns st' (nextConn st)) = Some pub \<and>
            lookup st' (sid_of hq) =
              Some (if pub then before\<lparr> publishers := publishers before + 1 \<rparr>
                    else before\<lparr> viewers := viewers before + 1 \<rparr>)"
  using connect_lookup(1)[OF assms, where st = "exec init is" and sk = sk]
    connect_lookup(3)[OF assms, where st = "exec init is" and sk = sk]
  by (simp add: Let_def exec_append is_publisher_def bump_def r_of_def)

theorem C5_role_normalised_witness:
  "sid_of (Some \<lparr> sessionId = Some ''abc'', role = Some ''Publisher'' \<rparr>) \<noteq> [] \<and>
   map_option is_publisher (conns (exec init ([join ''k1'' ''abc'' ''publisher''] @ [join ''k5'' ''abc'' ''Publisher''])) 1) =
     Some False \<and>
   lookup (exec init ([join ''k1'' ''abc'' ''publisher''] @ [join ''k5'' ''abc'' ''Publisher''])) ''abc'' =
     Some \<lparr> lastState = JNull, publishers = 1, viewers = 1 \<rparr>"
proof -
  let ?hq = "Some \<lparr> sessionId = Some ''abc'', role = Some ''Publisher'' \<rparr>"
  have h: "sid_of ?hq \<noteq> []" by (simp add: run_defs)
  have n: "nextConn (exec init [join ''k1'' ''abc'' ''publisher'']) = 1" by (simp add: run_defs)
  have l: "lookup (exec init [join ''k1'' ''abc'' ''publisher'']) (sid_of ?hq) =
     Some \<lparr> lastState = JNull, publishers = 1, viewers = 0 \<rparr>" by (simp add: run_defs)
  have s: "sid_of ?hq = ''abc''" by (simp add: run_defs)
  have r: "trim (String_or_empty (role (handshake_query ?hq))) = ''Publisher''" by (simp add: run_defs)
  note t = C5_role_normalised[OF h, of "[join ''k1'' ''abc'' ''publisher'']" "''k5''",
      unfolded Let_def n l r, unfolded s]
  show ?thesis using h t by simp
qed

text \<open>
  C5, counterexample to the reading that the supplied role string itself is compared.
  The role
  \<^verbatim>\<open>" publisher"\<close>, with a leading space, is not equal to \<^verbatim>\<open>"publisher"\<close>, and line 126
  trims it, so the connection is recorded as a publisher and \<^verbatim>\<open>publishers\<close> becomes 1.
\<close>

theorem C5_trimmed_role_counterexample:
  "'' publisher'' \<noteq> ''publisher'' \<and>
   map_option is_publisher (conns (exec init [join ''k6'' ''abc'' '' publisher'']) 0) = Some True \<and>
   lookup (exec init [join ''k6'' ''abc'' '' publisher'']) ''abc'' =
     Some \<lparr> lastState = JNull, publishers = 1, viewers = 0 \<rparr>"
  by (simp add: run_defs is_publisher_def)

text \<open>
  C6.  A handshake whose session identifier is empty after trimming, or absent, asks
  the transport for the forced close of the connection and does nothing else: the
  registry, every session object, every room and the set of connections with handlers
  are as before, the connection is in no room and has no handlers, and in every later
  state an event or a disconnect of that connection changes nothing and emits nothing.
\<close>

theorem C6_rejected_handshake:
  assumes "sid_of hq = []"
  shows "let st = exec init is; c = nextConn st; st' = fst (step st (Connect sk hq))
         in snd (step st (Connect sk hq)) = [ForceDisconnect c] \<and>
            sessions st' = sessions st \<and> heap st' = heap st \<and> nextRef st' = nextRef st \<and>
            conns st' = conns st \<and> rooms st' = rooms st \<and>
            conns st' c = None \<and> (\<forall>g. c \<notin> rooms st' g) \<and>
            (\<forall>js payload. step (exec st' js) (Event c payload) = (exec st' js, [])) \<and>
            (\<forall>js. step (exec st' js) (Disconnect c) = (exec st' js, []))"
proof -
  define st where "st = exec init is"
  define st' where "st' = fst (step st (Connect sk hq))"
  have a: "inv st" unfolding st_def by (rule inv_run)
  have e: "onConnect st sk hq = (st\<lparr> nextConn := Suc (nextConn st) \<rparr>, [ForceDisconnect (nextConn st)])"
    using assms by (simp add: onConnect_reject[OF a])
  have f: "conns st (nextConn st) = None" by (rule fresh_conn[OF a])
  have r: "nextConn st \<notin> rooms st g" for g
    using f by (simp add: invD_rooms[OF a])
  have d: "conns (exec st' js) (nextConn st) = None" for js
    by (rule conns_exec_dead) (simp_all add: st'_def e f)
  have 1: "step (exec st' js) (Event (nextConn st) payload) = (exec st' js, [])" for js payload
    using d[of js] by (simp add: onEvent_dead)
  have 2: "step (exec st' js) (Disconnect (nextConn st)) = (exec st' js, [])" for js
    using d[of js] by (simp add: onDisconnect_dead)
  show ?thesis
    unfolding Let_def st_def[symmetric] st'_def[symmetric]
    using 1 2 r f by (simp add: st'_def e)
qed

theorem C6_rejected_handshake_witness:
  "sid_of None = [] \<and>
   sid_of (Some \<lparr> sessionId = Some ''  '', role = Some ''publisher'' \<rparr>) = [] \<and>
   snd (step (exec init [join ''k2'' ''abc'' ''viewer''])
         (Connect ''k7'' (Some \<lparr> sessionId = Some ''  '', role = Some ''publisher'' \<rparr>))) = [ForceDisconnect 1] \<and>
   snd (step (exec init []) (Connect ''k0'' None)) = [ForceDisconnect 0] \<and>
   sessions (fst (step (exec init []) (Connect ''k0'' None))) = sessions (exec init []) \<and>
   snd (step (exec (fst (step (exec init []) (Connect ''k0'' None))) [join ''k2'' ''abc'' ''viewer''])
         (Event 0 (state_msg (JNum 1)))) = []"
proof -
  let ?hq = "Some \<lparr> sessionId = Some ''  '', role = Some ''publisher'' \<rparr>"
  have h1: "sid_of None = []" and h2: "sid_of ?hq = []"
    by (simp_all add: run_defs)
  have n1: "nextConn (exec init [join ''k2'' ''abc'' ''viewer'']) = 1" by (simp add: run_defs)
  have n0: "nextConn (exec init []) = 0" by (simp add: run_defs)
  note t1 = C6_rejected_handshake[OF h2, of "[join ''k2'' ''abc'' ''viewer'']" "''k7''",
      unfolded Let_def n1]
  note t0 = C6_rejected_handshake[OF h1, of "[]" "''k0''", unfolded Let_def n0]
  have a: "snd (step (exec init [join ''k2'' ''abc'' ''viewer'']) (Connect ''k7'' ?hq)) = [ForceDisconnect 1]"
    using t1 by blast
  have b: "snd (step (exec init []) (Connect ''k0'' None)) = [ForceDisconnect 0]"
    and c: "sessions (fst (step (exec init []) (Connect ''k0'' None))) = sessions (exec init [])"
    using t0 by blast+
  have "step (exec (fst (step (exec init []) (Connect ''k0'' None))) [join ''k2'' ''abc'' ''viewer''])
         (Event 0 (state_msg (JNum 1))) =
        (exec (fst (step (exec init []) (Connect ''k0'' None))) [join ''k2'' ''abc'' ''viewer''], [])"
    using t0 by blast
  then have d: "snd (step (exec (fst (step (exec init []) (Connect ''k0'' None))) [join ''k2'' ''abc'' ''viewer''])
         (Event 0 (state_msg (JNum 1)))) = []"
    by (simp only: snd_conv)
  show ?thesis
    by (intro conjI) (rule h1 h2 a b c d)+
qed

text \<open>
  C8.  A well-formed event from a connected connection yields exactly one request, the
  broadcast of the payload itself, unchanged, to the room named by the connection's
  session identifier.  Every connection attached to that session is in the room, the
  sender among them, and receives the payload once.  The room holds these connections
  and the connections whose socket id is that name; a connection receives the payload
  if it is in the room and nothing otherwise.
\<close>

theorem C8_broadcast_verbatim:
  assumes "conns (exec init is) c = Some cl" and "structured payload"
  shows "let st = exec init is; st' = fst (step st (Event c payload));
             acts = snd (step st (Event c payload))
         in acts = [BroadcastToGroup (c_sid cl) payload] \<and>
            c \<in> rooms st' (c_sid cl) \<and>
            (\<forall>d cl'. conns st d = Some cl' \<longrightarrow> c_sid cl' = c_sid cl \<longrightarrow>
               d \<in> rooms st' (c_sid cl) \<and> received st' acts d = [payload]) \<and>
            rooms st' (c_sid cl) =
              {d. \<exists>cl'. conns st d = Some cl' \<and> (c_sid cl' = c_sid cl \<or> c_id cl' = c_sid cl)} \<and>
            (\<forall>d. received st' acts d = (if d \<in> rooms st' (c_sid cl) then [payload] else []))"
proof -
  define st where "st = exec init is"
  have a: "inv st" unfolding st_def by (rule inv_run)
  have c: "conns st c = Some cl" using assms(1) by (simp add: st_def)
  have 1: "snd (onEvent st c payload) = [BroadcastToGroup (c_sid cl) payload]"
    using event_lookup(3)[OF a c, of payload] assms(2) by simp
  have 2: "rooms (fst (onEvent st c payload)) = rooms st"
    by (rule event_lookup(4)[OF a c])
  have 3: "rooms st (c_sid cl) =
      {d. \<exists>cl'. conns st d = Some cl' \<and> (c_sid cl' = c_sid cl \<or> c_id cl' = c_sid cl)}"
    by (rule invD_rooms[OF a])
  have 4: "d \<in> rooms st (c_sid cl)" if "conns st d = Some cl'" "c_sid cl' = c_sid cl" for d cl'
    using that by (auto simp: 3)
  have 5: "c \<in> rooms st (c_sid cl)" using 4[OF c] by simp
  show ?thesis
    unfolding Let_def st_def[symmetric] using 3 4 5 by (simp add: 1 2)
qed

theorem C8_broadcast_verbatim_witness:
  "conns (exec init [join ''k1'' ''abc'' ''publisher'', join ''k2'' ''abc'' ''viewer'', join ''k4'' ''xyz'' ''viewer'']) 1 =
     Some \<lparr> c_id = ''k2'', c_sid = ''abc'', c_r = ''viewer'', c_s = 0 \<rparr> \<and>
   structured (JObj [(''type'', JStr ''emoji''), (''ts'', JNum 17), (''extra'', JArr [JBool True])]) \<and>
   snd (step (exec init [join ''k1'' ''abc'' ''publisher'', join ''k2'' ''abc'' ''viewer'', join ''k4'' ''xyz'' ''viewer''])
         (Event 1 (JObj [(''type'', JStr ''emoji''), (''ts'', JNum 17), (''extra'', JArr [JBool True])]))) =
     [BroadcastToGroup ''abc'' (JObj [(''type'', JStr ''emoji''), (''ts'', JNum 17), (''extra'', JArr [JBool True])])] \<and>
   rooms (fst (step (exec init [join ''k1'' ''abc'' ''publisher'', join ''k2'' ''abc'' ''viewer'', join ''k4'' ''xyz'' ''viewer''])
         (Event 1 (JObj [(''type'', JStr ''emoji''), (''ts'', JNum 17), (''extra'', JArr [JBool True])])))) ''abc'' =
     {0, 1} \<and>
   conns (exec init [join ''k1'' ''abc'' ''publisher'', join ''k2'' ''abc'' ''viewer'', join ''k4'' ''xyz'' ''viewer'']) 0 =
     Some \<lparr> c_id = ''k1'', c_sid = ''abc'', c_r = ''publisher'', c_s = 0 \<rparr> \<and>
   received (fst (step (exec init [join ''k1'' ''abc'' ''publisher'', join ''k2'' ''abc'' ''viewer'', join ''k4'' ''xyz'' ''viewer''])
         (Event 1 (JObj [(''type'', JStr ''emoji''), (''ts'', JNum 17), (''extra'', JArr [JBool True])]))))
     (snd (step (exec init [join ''k1'' ''abc'' ''publisher'', join ''k2'' ''abc'' ''viewer'', join ''k4'' ''xyz'' ''viewer''])
         (Event 1 (JObj [(''type'', JStr ''emoji''), (''ts'', JNum 17), (''extra'', JArr [JBool True])])))) 0 =
     [JObj [(''type'', JStr ''emoji''), (''ts'', JNum 17), (''extra'', JArr [JBool True])]]"
proof -
  let ?is = "[join ''k1'' ''abc'' ''publisher'', join ''k2'' ''abc'' ''viewer'', join ''k4'' ''xyz'' ''viewer'']"
  let ?cl = "\<lparr> c_id = ''k2'', c_sid = ''abc'', c_r = ''viewer'', c_s = 0 \<rparr>"
  let ?p = "JObj [(''type'', JStr ''emoji''), (''ts'', JNum 17), (''extra'', JArr [JBool True])]"
  have h1: "conns (exec init ?is) 1 = Some ?cl" by (simp add: run_defs)
  have h2: "structured ?p" by simp
  have m: "{d. \<exists>cl'. conns (exec init ?is) d = Some cl' \<and>
      (c_sid cl' = c_sid ?cl \<or> c_id cl' = c_sid ?cl)} = {0, 1}"
    by (auto simp: run_defs split: if_splits)
  note t = C8_broadcast_verbatim[OF h1 h2, unfolded Let_def m]
  have h3: "conns (exec init ?is) 0 = Some \<lparr> c_id = ''k1'', c_sid = ''abc'', c_r = ''publisher'', c_s = 0 \<rparr>"
    by (simp add: run_defs)
  have h4: "c_sid \<lparr> c_id = ''k1'', c_sid = ''abc'', c_r = ''publisher'', c_s = 0 \<rparr> = c_sid ?cl"
    by simp
  have a: "snd (step (exec init ?is) (Event 1 ?p)) = [BroadcastToGroup (c_sid ?cl) ?p]"
    and b: "rooms (fst (step (exec init ?is) (Event 1 ?p))) (c_sid ?cl) = {0, 1}"
    using t by blast+
  have e: "received (fst (step (exec init ?is) (Event 1 ?p))) (snd (step (exec init ?is) (Event 1 ?p))) 0 = [?p]"
    using t h3 h4 by blast
  show ?thesis
    using h1 h2 h3 a b e by simp
qed

text \<open>
  C9.  Cross-session isolation, no event sent by a connection of one session is
  delivered to a connection attached to another, is what lines 133 and 157 are written
  for, and it fails where the session identifier of the sender is the socket id of the
  other connection.  The first connection, with socket id \<^verbatim>\<open>k1\<close>, is a viewer of
  session \<^verbatim>\<open>abc\<close>; the second names \<^verbatim>\<open>k1\<close> as its session identifier, so its session is
  another one with an object and counters of its own; the event of the second is
  broadcast to the room \<^verbatim>\<open>k1\<close>, where the transport keeps the first, and the first
  receives it.
\<close>

theorem C9_delivery_across_sessions:
  "conns (exec init [join ''k1'' ''abc'' ''viewer'', join ''k2'' ''k1'' ''publisher'']) 0 =
     Some \<lparr> c_id = ''k1'', c_sid = ''abc'', c_r = ''viewer'', c_s = 0 \<rparr> \<and>
   conns (exec init [join ''k1'' ''abc'' ''viewer'', join ''k2'' ''k1'' ''publisher'']) 1 =
     Some \<lparr> c_id = ''k2'', c_sid = ''k1'', c_r = ''publisher'', c_s = 1 \<rparr> \<and>
   ''abc'' \<noteq> ''k1'' \<and>
   snd (step (exec init [join ''k1'' ''abc'' ''viewer'', join ''k2'' ''k1'' ''publisher''])
          (Event 1 (JObj [(''type'', JStr ''emoji'')]))) =
     [BroadcastToGroup ''k1'' (JObj [(''type'', JStr ''emoji'')])] \<and>
   received (fst (step (exec init [join ''k1'' ''abc'' ''viewer'', join ''k2'' ''k1'' ''publisher''])
                   (Event 1 (JObj [(''type'', JStr ''emoji'')]))))
            (snd (step (exec init [join ''k1'' ''abc'' ''viewer'', join ''k2'' ''k1'' ''publisher''])
                   (Event 1 (JObj [(''type'', JStr ''emoji'')])))) 0 =
     [JObj [(''type'', JStr ''emoji'')]]"
  by (simp add: run_defs)

text \<open>
  C10.  After any run, the cached state of every registered session is null or
  truthy, so the truthiness test of line 140 is the test for non-null.  A well-formed
  event of type \<^verbatim>\<open>"state"\<close> whose \<^verbatim>\<open>data\<close> is falsy caches null, and from then on, as
  long as no further event of type \<^verbatim>\<open>"state"\<close> is processed in the session, a
  connection that joins the session is sent no catch-up.
\<close>

theorem C10_cached_state_null_or_truthy:
  "let st = exec init is
   in (\<forall>g s. lookup st g = Some s \<longrightarrow> lastState s = JNull \<or> truthy (lastState s)) \<and>
      (\<forall>g. truthy (cached st g) = (cached st g \<noteq> JNull)) \<and>
      (\<forall>c cl payload mid sk hq.
         conns st c = Some cl \<longrightarrow> structured payload \<longrightarrow>
         get_prop payload ''type'' = JStr ''state'' \<longrightarrow> \<not> truthy (get_prop payload ''data'') \<longrightarrow>
         silent (fst (step st (Event c payload))) (c_sid cl) mid \<longrightarrow> sid_of hq = c_sid cl \<longrightarrow>
         cached (fst (step st (Event c payload))) (c_sid cl) = JNull \<and>
         snd (step (exec (fst (step st (Event c payload))) mid) (Connect sk hq)) = [])"
proof -
  define st where "st = exec init is"
  have a: "inv st" unfolding st_def by (rule inv_run)
  have 1: "lastState s = JNull \<or> truthy (lastState s)" if l: "lookup st g = Some s" for g s
    using l invD_state[OF a, of g] by (auto simp: lookup_def)
  have 2: "truthy (cached st g) = (cached st g \<noteq> JNull)" for g
    by (rule truthy_cached[OF a])
  have 3: "cached (fst (step st (Event c payload))) (c_sid cl) = JNull \<and>
         snd (step (exec (fst (step st (Event c payload))) mid) (Connect sk hq)) = []"
    if c: "conns st c = Some cl" and s: "structured payload"
      and ty: "get_prop payload ''type'' = JStr ''state''"
      and f: "\<not> truthy (get_prop payload ''data'')"
      and q: "silent (fst (step st (Event c payload))) (c_sid cl) mid"
      and g: "sid_of hq = c_sid cl"
    for c cl payload mid sk hq
  proof -
    define st1 where "st1 = fst (step st (Event c payload))"
    have a1: "inv st1" unfolding st1_def by (rule inv_step[OF a])
    have n: "cached st1 (c_sid cl) = JNull"
      using event_lookup(2)[OF a c, of payload] s ty f
      by (simp add: st1_def cached_def cache_def)
    have "cached (exec st1 mid) (sid_of hq) = JNull"
      using cached_silent_null[OF a1 _ n, of mid] q g by (simp add: st1_def)
    moreover have "sid_of hq \<noteq> []" using invD_sid[OF a c] g by simp
    ultimately have "snd (step (exec st1 mid) (Connect sk hq)) = []"
      by (simp add: connect_lookup(2))
    then show ?thesis using n by (simp add: st1_def)
  qed
  show ?thesis
    unfolding Let_def st_def[symmetric] using 1 2 3 by blast
qed

theorem C10_cached_state_null_or_truthy_witness:
  "lookup (exec init [join ''k1'' ''abc'' ''publisher'', Event 0 (state_msg (JObj [(''x'', JNum 1)]))]) ''abc'' =
     Some \<lparr> lastState = JObj [(''x'', JNum 1)], publishers = 1, viewers = 0 \<rparr> \<and>
   truthy (JObj [(''x'', JNum 1)]) \<and>
   conns (exec init [join ''k1'' ''abc'' ''publisher'', Event 0 (state_msg (JObj [(''x'', JNum 1)]))]) 0 =
     Some \<lparr> c_id = ''k1'', c_sid = ''abc'', c_r = ''publisher'', c_s = 0 \<rparr> \<and>
   \<not> truthy (get_prop (state_msg (JBool False)) ''data'') \<and>
   silent (fst (step (exec init [join ''k1'' ''abc'' ''publisher'', Event 0 (state_msg (JObj [(''x'', JNum 1)]))])
                 (Event 0 (state_msg (JBool False))))) ''abc''
      [join ''k4'' ''xyz'' ''viewer'', Event 0 (JObj [(''type'', JStr ''emoji'')])] \<and>
   cached (fst (step (exec init [join ''k1'' ''abc'' ''publisher'', Event 0 (state_msg (JObj [(''x'', JNum 1)]))])
                 (Event 0 (state_msg (JBool False))))) ''abc'' = JNull \<and>
   snd (step (exec (fst (step (exec init [join ''k1'' ''abc'' ''publisher'', Event 0 (state_msg (JObj [(''x'', JNum 1)]))])
                 (Event 0 (state_msg (JBool False)))))
              [join ''k4'' ''xyz'' ''viewer'', Event 0 (JObj [(''type'', JStr ''emoji'')])])
        (join ''k2'' ''abc'' ''viewer'')) = []"
proof -
  let ?is = "[join ''k1'' ''abc'' ''publisher'', Event 0 (state_msg (JObj [(''x'', JNum 1)]))]"
  let ?cl = "\<lparr> c_id = ''k1'', c_sid = ''abc'', c_r = ''publisher'', c_s = 0 \<rparr>"
  let ?p = "state_msg (JBool False)"
  let ?mid = "[join ''k4'' ''xyz'' ''viewer'', Event 0 (JObj [(''type'', JStr ''emoji'')])]"
  let ?hq = "Some \<lparr> sessionId = Some ''abc'', role = Some ''viewer'' \<rparr>"
  have l: "lookup (exec init ?is) ''abc'' =
      Some \<lparr> lastState = JObj [(''x'', JNum 1)], publishers = 1, viewers = 0 \<rparr>"
    by (simp add: run_defs)
  have h1: "conns (exec init ?is) 0 = Some ?cl" by (simp add: run_defs)
  have h2: "structured ?p" by simp
  have h3: "get_prop ?p ''type'' = JStr ''state''" by simp
  have h4: "\<not> truthy (get_prop ?p ''data'')" by simp
  have h5: "silent (fst (step (exec init ?is) (Event 0 ?p))) (c_sid ?cl) ?mid"
    by (simp add: run_defs state_event_def)
  have h6: "sid_of ?hq = c_sid ?cl" by (simp add: run_defs)
  note t = C10_cached_state_null_or_truthy[of ?is, unfolded Let_def]
  have u: "lastState \<lparr> lastState = JObj [(''x'', JNum 1)], publishers = 1, viewers = 0 \<rparr> = JNull \<or>
           truthy (lastState \<lparr> lastState = JObj [(''x'', JNum 1)], publishers = 1, viewers = 0 \<rparr>)"
    using t l by blast
  then have a: "truthy (JObj [(''x'', JNum 1)])" by simp
  have "cached (fst (step (exec init ?is) (Event 0 ?p))) (c_sid ?cl) = JNull \<and>
        snd (step (exec (fst (step (exec init ?is) (Event 0 ?p))) ?mid) (Connect ''k2'' ?hq)) = []"
    using t h1 h2 h3 h4 h5 h6 by blast
  then have b: "cached (fst (step (exec init ?is) (Event 0 ?p))) ''abc'' = JNull"
    and c: "snd (step (exec (fst (step (exec init ?is) (Event 0 ?p))) ?mid) (Connect ''k2'' ?hq)) = []"
    by simp_all
  have h5': "silent (fst (step (exec init ?is) (Event 0 ?p))) ''abc'' ?mid"
    using h5 by simp
  show ?thesis
    by (intro conjI) (rule l a h1 h4 h5' b c)+
qed

end
